theory Spec2Isabelle
  imports Complex_Main "HOL-Library.Stream" "HOL-Library.Log_Nat"
begin

section \<open>Genetic drift simulation: the program\<close>

text \<open>
  The embedding follows \<^verbatim>\<open>genetic_drift_simulation.py\<close> function by function.
  \<^item> A sequence is a Python \<^verbatim>\<open>str\<close>, here a \<open>string\<close>; a population is a list of them.
  \<^item> Python integers are \<open>int\<close>; an index produced by \<^verbatim>\<open>range\<close> is a \<open>nat\<close>.
  \<^item> A Python float is a \<open>pyfloat\<close>: a rational (the value of a finite binary64), an
    infinity or NaN. True division rounds to the nearest binary64, ties to even, and a
    comparison with NaN is false.
  \<^item> An exception is a value \<open>Inl e\<close> of a sum type.
  \<^item> A \<^verbatim>\<open>for index in range(a, b)\<close> loop is a fold over \<open>[a..<b]\<close> whose state holds
    the variables the body assigns; \<open>for_in\<close> is the fold that stops at the first exception.
  \<^item> The module \<^verbatim>\<open>random\<close> is a state from which the results of the successive calls are read.
\<close>

subsection \<open>Exceptions and loops\<close>

datatype error = IndexError | ZeroDivisionError

primrec for_in :: "'i list \<Rightarrow> ('i \<Rightarrow> 's \<Rightarrow> error + 's) \<Rightarrow> 's \<Rightarrow> error + 's" where
  "for_in [] body s = Inr s"
| "for_in (i # is) body s =
     (case body i s of Inl e \<Rightarrow> Inl e | Inr s' \<Rightarrow> for_in is body s')"

text \<open>\<^verbatim>\<open>xs[i]\<close> for an index \<open>i \<ge> 0\<close>: out of range raises \<^verbatim>\<open>IndexError\<close>.\<close>

definition getitem :: "'a list \<Rightarrow> nat \<Rightarrow> error + 'a" where
  "getitem xs i = (if i < length xs then Inr (xs ! i) else Inl IndexError)"

subsection \<open>Floats and true division\<close>

text \<open>
  A Python float is an IEEE binary64: a finite value (a rational), an infinity or NaN. The
  sign of a zero is not kept: \<^verbatim>\<open>-0.0\<close> and \<^verbatim>\<open>0.0\<close> compare equal and divide alike.
\<close>

datatype pyfloat = Finite rat | PosInf | NegInf | NaN

text \<open>
  The binary exponent of a positive rational: \<open>2 ^ e \<le> x < 2 ^ (e + 1)\<close>. The difference
  of the bit lengths of numerator and denominator is \<open>e\<close> or \<open>e + 1\<close>.
\<close>

definition floor_log2 :: "rat \<Rightarrow> int" where
  "floor_log2 x =
     (case quotient_of x of (p, d) \<Rightarrow>
        let k = bitlen p - bitlen d in if 2 powi k \<le> x then k else k - 1)"

definition round_half_even :: "rat \<Rightarrow> int" where
  "round_half_even m =
     (let f = \<lfloor>m\<rfloor>; t = m - of_int f
      in if t < 1 / 2 then f else if 1 / 2 < t then f + 1 else if even f then f else f + 1)"

text \<open>
  Rounding a positive rational to the nearest binary64, ties to even: 53 significant bits
  for a normal value, multiples of \<open>2 ^ -1074\<close> below \<open>2 ^ -1022\<close>, and infinity from
  \<open>2 ^ 1024\<close> on.
\<close>

definition round_positive :: "rat \<Rightarrow> pyfloat" where
  "round_positive x =
     (let e = floor_log2 x; q = max e (- 1022) - 52;
          v = of_int (round_half_even (x / 2 powi q)) * 2 powi q
      in if 2 powi 1024 \<le> v then PosInf else Finite v)"

fun float_neg :: "pyfloat \<Rightarrow> pyfloat" where
  "float_neg (Finite v) = Finite (- v)"
| "float_neg PosInf = NegInf"
| "float_neg NegInf = PosInf"
| "float_neg NaN = NaN"

definition round64 :: "rat \<Rightarrow> pyfloat" where
  "round64 x =
     (if x = 0 then Finite 0
      else if 0 < x then round_positive x
      else float_neg (round_positive (- x)))"

text \<open>
  The quotient of two floats whose divisor is not zero, as the processor computes it. (The
  equation for two finite operands is only used with a divisor other than 0.)
\<close>

fun ieee_div :: "pyfloat \<Rightarrow> pyfloat \<Rightarrow> pyfloat" where
  "ieee_div NaN b = NaN"
| "ieee_div a NaN = NaN"
| "ieee_div (Finite a) (Finite b) = round64 (a / b)"
| "ieee_div (Finite a) b = Finite 0"
| "ieee_div PosInf (Finite b) = (if 0 < b then PosInf else NegInf)"
| "ieee_div NegInf (Finite b) = (if 0 < b then NegInf else PosInf)"
| "ieee_div a b = NaN"

definition float_div :: "pyfloat \<Rightarrow> pyfloat \<Rightarrow> error + pyfloat" where
  "float_div a b = (if b = Finite 0 then Inl ZeroDivisionError else Inr (ieee_div a b))"

text \<open>
  \<^verbatim>\<open>a / b\<close> on numbers. Two integers give the exact quotient rounded once. With a float
  operand an integer operand is first converted to a float, which rounds it, and the
  floats are divided. A zero divisor raises \<^verbatim>\<open>ZeroDivisionError\<close>. Python raises
  \<^verbatim>\<open>OverflowError\<close> where an integer, or the quotient of two integers, is beyond the
  binary64 range; here such a value rounds to infinity. The integers that this program
  divides are a sum of distances, a population size and a sequence length, and the length
  of a Python list or string is below \<open>2 ^ 63\<close>, so none of them is that large.
\<close>

datatype pynum = PyInt int | PyFloat pyfloat

fun truediv :: "pynum \<Rightarrow> pynum \<Rightarrow> error + pyfloat" where
  "truediv (PyInt a) (PyInt b) =
     (if b = 0 then Inl ZeroDivisionError else Inr (round64 (of_int a / of_int b)))"
| "truediv (PyInt a) (PyFloat b) = float_div (round64 (of_int a)) b"
| "truediv (PyFloat a) (PyInt b) = float_div a (round64 (of_int b))"
| "truediv (PyFloat a) (PyFloat b) = float_div a b"

text \<open>\<^verbatim>\<open>a <= b\<close> and \<^verbatim>\<open>a > b\<close> on floats: both are false when an operand is NaN.\<close>

fun float_le :: "pyfloat \<Rightarrow> pyfloat \<Rightarrow> bool" where
  "float_le NaN b = False"
| "float_le a NaN = False"
| "float_le (Finite a) (Finite b) = (a \<le> b)"
| "float_le NegInf b = True"
| "float_le a PosInf = True"
| "float_le a b = False"

fun float_gt :: "pyfloat \<Rightarrow> pyfloat \<Rightarrow> bool" where
  "float_gt NaN b = False"
| "float_gt a NaN = False"
| "float_gt (Finite a) (Finite b) = (b < a)"
| "float_gt PosInf PosInf = False"
| "float_gt NegInf NegInf = False"
| "float_gt PosInf b = True"
| "float_gt a NegInf = True"
| "float_gt a b = False"

subsection \<open>The random module\<close>

text \<open>
  The generator is read as two streams: \<open>uniforms\<close> holds the values that the successive
  calls of \<^verbatim>\<open>random.random()\<close> return (finite floats), \<open>picks\<close> the numbers from which the successive
  calls of \<^verbatim>\<open>random.choice\<close> select. \<^verbatim>\<open>random.choice(seq)\<close> returns
  \<^verbatim>\<open>seq[k]\<close> for a generated \<open>k\<close> below \<^verbatim>\<open>len(seq)\<close>; the next element of \<open>picks\<close>
  is reduced modulo the length, so that every stream yields an index in range and every
  sequence of indices in range is the run of some stream. An empty \<^verbatim>\<open>seq\<close> raises
  \<^verbatim>\<open>IndexError\<close>.
\<close>

record rng =
  uniforms :: "rat stream"
  picks :: "nat stream"

definition random_random :: "rng \<Rightarrow> rat \<times> rng" where
  "random_random r = (shd (uniforms r), r\<lparr>uniforms := stl (uniforms r)\<rparr>)"

definition random_choice :: "'a list \<Rightarrow> rng \<Rightarrow> (error + 'a) \<times> rng" where
  "random_choice seq r =
     (if seq = [] then (Inl IndexError, r)
      else (Inr (seq ! (shd (picks r) mod length seq)), r\<lparr>picks := stl (picks r)\<rparr>))"

subsection \<open>initialize_original_sequence\<close>

definition initialize_original_sequence :: "int \<Rightarrow> int \<Rightarrow> string list" where
  "initialize_original_sequence population_size_N num_of_base_pairs_L =
     fold (\<lambda>index initial_sequence.
             initial_sequence @
               [fold (\<lambda>nucleotide indiv_sequence. indiv_sequence @ ''A'')
                  [0..<nat num_of_base_pairs_L] ''''])
       [0..<nat population_size_N] []"

subsection \<open>mutate and reproduce\<close>

definition nucleotide_choices :: string where
  "nucleotide_choices = [CHR ''C'', CHR ''T'', CHR ''G'']"

text \<open>
  One round of the loop of \<^verbatim>\<open>mutate\<close>. The state is the string built so far and the
  generator. The source has an \<^verbatim>\<open>if\<close> and an \<^verbatim>\<open>elif\<close> and no \<^verbatim>\<open>else\<close>: when neither
  comparison holds, which is when the mutation rate is NaN, nothing is appended. \<^verbatim>\<open>generation_sequence[index]\<close> is read with
  \<open>index\<close> below the length, and \<^verbatim>\<open>random.choice\<close> is given a list of three, so neither
  raises; the model keeps both checks.
\<close>

definition mutate_body :: "pyfloat \<Rightarrow> string \<Rightarrow> nat \<Rightarrow> string \<times> rng \<Rightarrow> error + string \<times> rng" where
  "mutate_body mutation_rate generation_sequence index st =
     (case st of (new_generation_sequence, r) \<Rightarrow>
        (case random_random r of (likelihood, r1) \<Rightarrow>
           if float_le (Finite likelihood) mutation_rate then
             (case random_choice nucleotide_choices r1 of
                (Inl e, r2) \<Rightarrow> Inl e
              | (Inr c, r2) \<Rightarrow> Inr (new_generation_sequence @ [c], r2))
           else if float_gt (Finite likelihood) mutation_rate then
             (case getitem generation_sequence index of
                Inl e \<Rightarrow> Inl e
              | Inr c \<Rightarrow> Inr (new_generation_sequence @ [c], r1))
           else Inr (new_generation_sequence, r1)))"

definition mutate :: "pyfloat \<Rightarrow> string \<Rightarrow> rng \<Rightarrow> error + string \<times> rng" where
  "mutate mutation_rate generation_sequence r =
     for_in [0..<length generation_sequence]
       (mutate_body mutation_rate generation_sequence) ('''', r)"

definition reproduce_body ::
  "pyfloat \<Rightarrow> string list \<Rightarrow> nat \<Rightarrow> string list \<times> rng \<Rightarrow> error + string list \<times> rng" where
  "reproduce_body mutation_rate prev_generation index st =
     (case st of (new_generation, r) \<Rightarrow>
        (case getitem prev_generation index of
           Inl e \<Rightarrow> Inl e
         | Inr s \<Rightarrow>
             (case mutate mutation_rate s r of
                Inl e \<Rightarrow> Inl e
              | Inr (s', r') \<Rightarrow> Inr (new_generation @ [s'], r'))))"

definition reproduce :: "pyfloat \<Rightarrow> string list \<Rightarrow> rng \<Rightarrow> error + string list \<times> rng" where
  "reproduce mutation_rate prev_generation r =
     for_in [0..<length prev_generation]
       (reproduce_body mutation_rate prev_generation) ([], r)"

subsection \<open>compare_sequences and genetic_distance\<close>

definition compare_body :: "string \<Rightarrow> string \<Rightarrow> nat \<Rightarrow> nat \<Rightarrow> error + nat" where
  "compare_body sequence1 sequence2 index num_differences =
     (case getitem sequence1 index of
        Inl e \<Rightarrow> Inl e
      | Inr a \<Rightarrow>
          (case getitem sequence2 index of
             Inl e \<Rightarrow> Inl e
           | Inr b \<Rightarrow> Inr (if a \<noteq> b then num_differences + 1 else num_differences)))"

definition compare_sequences :: "string \<Rightarrow> string \<Rightarrow> error + nat" where
  "compare_sequences sequence1 sequence2 =
     for_in [0..<length sequence1] (compare_body sequence1 sequence2) 0"

definition distances_inner :: "string list \<Rightarrow> nat \<Rightarrow> nat \<Rightarrow> nat list \<Rightarrow> error + nat list" where
  "distances_inner generation index index2 distances =
     (case getitem generation index of
        Inl e \<Rightarrow> Inl e
      | Inr s1 \<Rightarrow>
          (case getitem generation index2 of
             Inl e \<Rightarrow> Inl e
           | Inr s2 \<Rightarrow>
               (case compare_sequences s1 s2 of
                  Inl e \<Rightarrow> Inl e
                | Inr d \<Rightarrow> Inr (distances @ [d]))))"

definition distances_outer :: "string list \<Rightarrow> nat \<Rightarrow> nat list \<Rightarrow> error + nat list" where
  "distances_outer generation index distances =
     for_in [index + 1..<length generation] (distances_inner generation index) distances"

definition genetic_distance :: "string list \<Rightarrow> pynum \<Rightarrow> int \<Rightarrow> error + pyfloat" where
  "genetic_distance generation population_size_N num_of_base_pairs_L =
     (case for_in [0..<length generation] (distances_outer generation) [] of
        Inl e \<Rightarrow> Inl e
      | Inr distances \<Rightarrow>
          (let sum_of_distances = fold (\<lambda>value s. s + value) distances 0 in
           case truediv (PyInt (int sum_of_distances)) population_size_N of
             Inl e \<Rightarrow> Inl e
           | Inr q \<Rightarrow> truediv (PyFloat q) (PyInt num_of_base_pairs_L)))"

text \<open>
  \<^verbatim>\<open>genetic_distance(population, population_size_N / 2, num_of_base_pairs_L)\<close>, as
  \<^verbatim>\<open>main\<close> calls it after the split: the argument \<^verbatim>\<open>population_size_N / 2\<close> is
  evaluated first.
\<close>

definition genetic_distance_half :: "string list \<Rightarrow> int \<Rightarrow> int \<Rightarrow> error + pyfloat" where
  "genetic_distance_half population population_size_N num_of_base_pairs_L =
     (case truediv (PyInt population_size_N) (PyInt 2) of
        Inl e \<Rightarrow> Inl e
      | Inr half \<Rightarrow> genetic_distance population (PyFloat half) num_of_base_pairs_L)"

subsection \<open>split_populations\<close>

text \<open>
  \<^verbatim>\<open>index < population_size_N / 2\<close> compares an integer with a float by their exact
  values. \<^verbatim>\<open>population_size_N / 2\<close> is exact in binary64 for every population size
  below \<open>2 ^ 53\<close>, so the comparison is taken with the exact half.
\<close>

definition split_body ::
  "'a list \<Rightarrow> int \<Rightarrow> nat \<Rightarrow> 'a list \<times> 'a list \<Rightarrow> error + 'a list \<times> 'a list" where
  "split_body generation_sequence population_size_N index st =
     (case st of (population1, population2) \<Rightarrow>
        (case getitem generation_sequence index of
           Inl e \<Rightarrow> Inl e
         | Inr x \<Rightarrow>
             if (of_nat index :: rat) < of_int population_size_N / 2
             then Inr (population1 @ [x], population2)
             else Inr (population1, population2 @ [x])))"

definition split_populations :: "'a list \<Rightarrow> int \<Rightarrow> error + 'a list \<times> 'a list" where
  "split_populations generation_sequence population_size_N =
     for_in [0..<length generation_sequence]
       (split_body generation_sequence population_size_N) ([], [])"

subsection \<open>main\<close>

text \<open>
  The variables of \<^verbatim>\<open>main\<close> after the input has been read and converted. The five
  numbers are parameters; \<open>list_all_generations\<close> is the answer \<^verbatim>\<open>Y\<close> to the last question.
  The loops of lines 260 to 278 leave \<open>N\<close>, \<open>L\<close>, \<open>g\<close> and \<open>G\<close> positive. The loop of
  line 269 asks again while \<^verbatim>\<open>float(mutation_rate) < 0 or float(mutation_rate) > 1\<close>, so
  the mutation rate is a float in \<open>[0,1]\<close> or NaN, for which both comparisons are false. Printing
  is left out, but each \<^verbatim>\<open>genetic_distance\<close> that is evaluated to be printed is kept, since
  it may raise. \<open>population1\<close> and \<open>population2\<close> are unassigned (here empty) until the
  split.
\<close>

record sim_state =
  generations :: "int list"
  avg_genetic_distances :: "pyfloat list"
  generation_number :: int
  new_generation_sequence :: "string list"
  population1 :: "string list"
  population2 :: "string list"
  rand :: rng

text \<open>Lines 292 to 296: the first generation, the empty lists and the counter.\<close>

definition initial_state :: "int \<Rightarrow> int \<Rightarrow> rng \<Rightarrow> sim_state" where
  "initial_state population_size_N num_of_base_pairs_L r =
     (let initial_sequence =
            initialize_original_sequence population_size_N num_of_base_pairs_L
      in \<lparr>generations = [], avg_genetic_distances = [], generation_number = 1,
          new_generation_sequence = initial_sequence,
          population1 = [], population2 = [], rand = r\<rparr>)"

text \<open>Lines 300 to 308: the loop before the split.\<close>

definition pre_split_body ::
  "int \<Rightarrow> int \<Rightarrow> pyfloat \<Rightarrow> bool \<Rightarrow> nat \<Rightarrow> sim_state \<Rightarrow> error + sim_state" where
  "pre_split_body population_size_N num_of_base_pairs_L mutation_rate list_all_generations generation st =
     (case genetic_distance (new_generation_sequence st) (PyInt population_size_N)
             num_of_base_pairs_L of
        Inl e \<Rightarrow> Inl e
      | Inr d \<Rightarrow>
          (case (if list_all_generations
                 then genetic_distance (new_generation_sequence st) (PyInt population_size_N)
                        num_of_base_pairs_L
                 else Inr d) of
             Inl e \<Rightarrow> Inl e
           | Inr shown \<Rightarrow>
               (case reproduce mutation_rate (new_generation_sequence st) (rand st) of
                  Inl e \<Rightarrow> Inl e
                | Inr (next_generation, r) \<Rightarrow>
                    Inr (st\<lparr>generations := generations st @ [generation_number st],
                            avg_genetic_distances := avg_genetic_distances st @ [d],
                            new_generation_sequence := next_generation,
                            rand := r,
                            generation_number := generation_number st + 1\<rparr>))))"

text \<open>
  Lines 312 to 330: the loop after the split. Both results of \<^verbatim>\<open>reproduce\<close> are
  assigned to \<^verbatim>\<open>new_generation_sequence\<close>; \<^verbatim>\<open>population1\<close> and \<^verbatim>\<open>population2\<close> are
  read and never assigned.
\<close>

definition post_split_body ::
  "int \<Rightarrow> int \<Rightarrow> pyfloat \<Rightarrow> bool \<Rightarrow> nat \<Rightarrow> sim_state \<Rightarrow> error + sim_state" where
  "post_split_body population_size_N num_of_base_pairs_L mutation_rate list_all_generations generation st =
     (case genetic_distance_half (population1 st) population_size_N
             num_of_base_pairs_L of
        Inl e \<Rightarrow> Inl e
      | Inr d1 \<Rightarrow>
          (case (if list_all_generations
                 then genetic_distance_half (population1 st) population_size_N
                        num_of_base_pairs_L
                 else Inr d1) of
             Inl e \<Rightarrow> Inl e
           | Inr shown1 \<Rightarrow>
               (case reproduce mutation_rate (population1 st) (rand st) of
                  Inl e \<Rightarrow> Inl e
                | Inr (next1, r1) \<Rightarrow>
                    (case genetic_distance_half (population2 st) population_size_N
                            num_of_base_pairs_L of
                       Inl e \<Rightarrow> Inl e
                     | Inr d2 \<Rightarrow>
                         (case (if list_all_generations
                                then genetic_distance_half (population2 st) population_size_N num_of_base_pairs_L
                                else Inr d2) of
                            Inl e \<Rightarrow> Inl e
                          | Inr shown2 \<Rightarrow>
                              (case reproduce mutation_rate (population2 st) r1 of
                                 Inl e \<Rightarrow> Inl e
                               | Inr (next2, r2) \<Rightarrow>
                                   Inr (st\<lparr>generations :=
                                              generations st @
                                                [generation_number st, generation_number st],
                                           avg_genetic_distances :=
                                              avg_genetic_distances st @ [d1, d2],
                                           new_generation_sequence := next2,
                                           rand := r2,
                                           generation_number := generation_number st + 1\<rparr>)))))))"

text \<open>Lines 345 to 353: the loop of a run without a split.\<close>

definition no_split_body ::
  "int \<Rightarrow> int \<Rightarrow> pyfloat \<Rightarrow> bool \<Rightarrow> nat \<Rightarrow> sim_state \<Rightarrow> error + sim_state" where
  "no_split_body population_size_N num_of_base_pairs_L mutation_rate list_all_generations generation st =
     (case genetic_distance (new_generation_sequence st) (PyInt population_size_N)
             num_of_base_pairs_L of
        Inl e \<Rightarrow> Inl e
      | Inr d \<Rightarrow>
          (case genetic_distance (new_generation_sequence st) (PyInt population_size_N)
                  num_of_base_pairs_L of
             Inl e \<Rightarrow> Inl e
           | Inr shown \<Rightarrow>
               (case reproduce mutation_rate (new_generation_sequence st) (rand st) of
                  Inl e \<Rightarrow> Inl e
                | Inr (next_generation, r) \<Rightarrow>
                    Inr (st\<lparr>generations := generations st @ [generation_number st],
                            avg_genetic_distances := avg_genetic_distances st @ [d],
                            new_generation_sequence := next_generation,
                            rand := r,
                            generation_number := generation_number st + 1\<rparr>))))"

definition main ::
  "int \<Rightarrow> int \<Rightarrow> pyfloat \<Rightarrow> int \<Rightarrow> int \<Rightarrow> bool \<Rightarrow> rng \<Rightarrow> error + sim_state" where
  "main population_size_N num_of_base_pairs_L mutation_rate generation_g total_generations_G
        list_all_generations r =
     (let st0 = initial_state population_size_N num_of_base_pairs_L r in
      if generation_g < total_generations_G then
        (case for_in [0..<nat generation_g]
                (pre_split_body population_size_N num_of_base_pairs_L mutation_rate list_all_generations)
                st0 of
           Inl e \<Rightarrow> Inl e
         | Inr st1 \<Rightarrow>
             (case split_populations (new_generation_sequence st1) population_size_N of
                Inl e \<Rightarrow> Inl e
              | Inr (p1, p2) \<Rightarrow>
                  (case for_in [nat generation_g..<nat total_generations_G]
                          (post_split_body population_size_N num_of_base_pairs_L
                             mutation_rate list_all_generations)
                          (st1\<lparr>population1 := p1, population2 := p2\<rparr>) of
                     Inl e \<Rightarrow> Inl e
                   | Inr st2 \<Rightarrow>
                       if \<not> list_all_generations then
                         (case genetic_distance_half (population1 st2) population_size_N num_of_base_pairs_L of
                            Inl e \<Rightarrow> Inl e
                          | Inr shown1 \<Rightarrow>
                              (case genetic_distance_half (population2 st2) population_size_N num_of_base_pairs_L of
                                 Inl e \<Rightarrow> Inl e
                               | Inr shown2 \<Rightarrow> Inr st2))
                       else Inr st2)))
      else
        (case for_in [0..<nat total_generations_G]
                (no_split_body population_size_N num_of_base_pairs_L mutation_rate list_all_generations)
                st0 of
           Inl e \<Rightarrow> Inl e
         | Inr st1 \<Rightarrow>
             if \<not> list_all_generations then
               (case genetic_distance (new_generation_sequence st1) (PyInt population_size_N)
                       num_of_base_pairs_L of
                  Inl e \<Rightarrow> Inl e
                | Inr shown \<Rightarrow> Inr st1)
             else Inr st1))"

section \<open>Notions used by the properties\<close>

text \<open>The number of positions before \<open>i\<close> whose draw is at most the mutation rate: the number of calls of \<^verbatim>\<open>random.choice\<close> that \<^verbatim>\<open>mutate\<close> has made when it reaches position \<open>i\<close>.\<close>

definition mutations_before :: "pyfloat \<Rightarrow> rng \<Rightarrow> nat \<Rightarrow> nat" where
  "mutations_before mutation_rate r i =
     length (filter (\<lambda>j. float_le (Finite (uniforms r !! j)) mutation_rate) [0..<i])"

text \<open>The generator after \<open>n\<close> calls of \<^verbatim>\<open>random.random\<close> and \<open>k\<close> calls of \<^verbatim>\<open>random.choice\<close>.\<close>

definition advance :: "rng \<Rightarrow> nat \<Rightarrow> nat \<Rightarrow> rng" where
  "advance r n k = r\<lparr>uniforms := sdrop n (uniforms r), picks := sdrop k (picks r)\<rparr>"

text \<open>What \<^verbatim>\<open>mutate\<close> appends at position \<open>i\<close>, in terms of the draws of the generator it starts from: the chosen symbol, the symbol of the input, or nothing when neither comparison holds.\<close>

definition site_output :: "pyfloat \<Rightarrow> string \<Rightarrow> rng \<Rightarrow> nat \<Rightarrow> string" where
  "site_output mutation_rate s r i =
     (if float_le (Finite (uniforms r !! i)) mutation_rate
      then [nucleotide_choices ! (picks r !! mutations_before mutation_rate r i mod 3)]
      else if float_gt (Finite (uniforms r !! i)) mutation_rate then [s ! i]
      else [])"

text \<open>The symbol that \<^verbatim>\<open>mutate\<close> writes at position \<open>i\<close> of its output when the mutation rate is a number.\<close>

definition mutated_site :: "pyfloat \<Rightarrow> string \<Rightarrow> rng \<Rightarrow> nat \<Rightarrow> char" where
  "mutated_site mutation_rate s r i =
     (if float_le (Finite (uniforms r !! i)) mutation_rate
      then nucleotide_choices ! (picks r !! mutations_before mutation_rate r i mod 3)
      else s ! i)"

text \<open>The number of positions of \<open>a\<close> at which \<open>a\<close> and \<open>b\<close> differ.\<close>

definition hamming :: "string \<Rightarrow> string \<Rightarrow> nat" where
  "hamming a b = length (filter (\<lambda>i. a ! i \<noteq> b ! i) [0..<length a])"

text \<open>The index pairs \<open>(i, j)\<close> with \<open>i < j < n\<close>, in the order of the two nested loops.\<close>

definition unordered_pairs :: "nat \<Rightarrow> (nat \<times> nat) list" where
  "unordered_pairs n = concat (map (\<lambda>i. map (Pair i) [Suc i..<n]) [0..<n])"

text \<open>The sum of the distances of all unordered pairs of a population.\<close>

definition pair_total :: "string list \<Rightarrow> nat" where
  "pair_total pop =
     sum_list (map (\<lambda>(i, j). hamming (pop ! i) (pop ! j)) (unordered_pairs (length pop)))"

text \<open>Every sequence of the population has length \<open>l\<close>.\<close>

definition all_of_length :: "nat \<Rightarrow> string list \<Rightarrow> bool" where
  "all_of_length l pop = (\<forall>s\<in>set pop. length s = l)"

text \<open>The sequences of the population have one common length.\<close>

definition same_length :: "string list \<Rightarrow> bool" where
  "same_length pop = (\<exists>l. all_of_length l pop)"

text \<open>The float that \<^verbatim>\<open>a / b\<close> returns; NaN stands for a division that raises.\<close>

definition py_quotient :: "pynum \<Rightarrow> pynum \<Rightarrow> pyfloat" where
  "py_quotient a b = (case truediv a b of Inl e \<Rightarrow> NaN | Inr d \<Rightarrow> d)"

text \<open>The value \<^verbatim>\<open>(sum_of_distances / divisor) / L\<close>, with both divisions in float arithmetic.\<close>

definition recorded_distance :: "string list \<Rightarrow> pynum \<Rightarrow> int \<Rightarrow> pyfloat" where
  "recorded_distance pop divisor L =
     py_quotient (PyFloat (py_quotient (PyInt (int (pair_total pop))) divisor)) (PyInt L)"


text \<open>The populations of a run with parameters \<open>N\<close>, \<open>L\<close> and the mutation rate: the first generation, what \<^verbatim>\<open>reproduce\<close> returns from one of them, and what \<^verbatim>\<open>split_populations\<close> returns from one of them.\<close>

inductive reachable :: "int \<Rightarrow> int \<Rightarrow> pyfloat \<Rightarrow> string list \<Rightarrow> bool"
  for N L mutation_rate where
  initial: "reachable N L mutation_rate (initialize_original_sequence N L)"
| reproduced: "reachable N L mutation_rate pop \<Longrightarrow>
     reproduce mutation_rate pop r = Inr (pop', r') \<Longrightarrow> reachable N L mutation_rate pop'"
| split1: "reachable N L mutation_rate pop \<Longrightarrow>
     split_populations pop N = Inr (p1, p2) \<Longrightarrow> reachable N L mutation_rate p1"
| split2: "reachable N L mutation_rate pop \<Longrightarrow>
     split_populations pop N = Inr (p1, p2) \<Longrightarrow> reachable N L mutation_rate p2"

text \<open>The probability that \<^verbatim>\<open>random.choice(seq)\<close> returns \<open>c\<close> when the index it generates is uniform on \<^verbatim>\<open>range(len(seq))\<close>: the share of the positions of \<open>seq\<close> that hold \<open>c\<close>.\<close>

definition choice_probability :: "'a list \<Rightarrow> 'a \<Rightarrow> rat" where
  "choice_probability seq c =
     of_nat (length (filter (\<lambda>k. seq ! k = c) [0..<length seq])) / of_nat (length seq)"

section \<open>Properties\<close>

lemma floor_log2_bounds:
  assumes "0 < x"
  shows "2 powi floor_log2 x \<le> x \<and> x < 2 powi (floor_log2 x + 1)"
proof -
  obtain p d where pd: "quotient_of x = (p, d)" by (cases "quotient_of x")
  then have d: "0 < d" and x: "x = of_int p / of_int d"
    using quotient_of_denom_pos quotient_of_div by blast+
  have p: "0 < p" using assms d x by (simp add: zero_less_divide_iff)
  define k where "k = bitlen p - bitlen d"
  have bp: "2 ^ nat (bitlen p - 1) \<le> p" "p < 2 ^ nat (bitlen p)"
    using bitlen_bounds [OF p] by simp_all
  have bd: "2 ^ nat (bitlen d - 1) \<le> d" "d < 2 ^ nat (bitlen d)"
    using bitlen_bounds [OF d] by simp_all
  have bp0: "1 \<le> bitlen p" and bd0: "1 \<le> bitlen d"
    using p d bitlen_def bitlen_eq_zero_iff bitlen_nonneg
    by (smt (verit, best))+
  have P1: "(2::rat) powi (bitlen p - 1) \<le> of_int p"
  proof -
    have "(of_int (2 ^ nat (bitlen p - 1)) :: rat) \<le> of_int p"
      using bp(1) by (simp only: of_int_le_iff)
    then show ?thesis using bp0 by (simp add: power_int_def)
  qed
  have P2: "(of_int p :: rat) < 2 powi (bitlen p)"
  proof -
    have "(of_int p :: rat) < of_int (2 ^ nat (bitlen p))"
      using bp(2) by (simp only: of_int_less_iff)
    then show ?thesis using bp0 by (simp add: power_int_def)
  qed
  have D1: "(2::rat) powi (bitlen d - 1) \<le> of_int d"
  proof -
    have "(of_int (2 ^ nat (bitlen d - 1)) :: rat) \<le> of_int d"
      using bd(1) by (simp only: of_int_le_iff)
    then show ?thesis using bd0 by (simp add: power_int_def)
  qed
  have D2: "(of_int d :: rat) < 2 powi (bitlen d)"
  proof -
    have "(of_int d :: rat) < of_int (2 ^ nat (bitlen d))"
      using bd(2) by (simp only: of_int_less_iff)
    then show ?thesis using bd0 by (simp add: power_int_def)
  qed
  have dpos: "(0::rat) < of_int d" using d by simp
  have ppos: "(0::rat) < of_int p" using p by simp
  have pw: "(0::rat) < 2 powi j" for j by (simp add: power_int_def)
  have upper: "x < 2 powi (k + 1)"
  proof -
    have "x * 2 powi (bitlen d - 1) \<le> x * of_int d"
      using D1 assms by (simp add: mult_left_mono)
    also have "\<dots> = of_int p" using x dpos by simp
    also have "\<dots> < 2 powi (bitlen p)" by (rule P2)
    also have "\<dots> = 2 powi (k + 1) * 2 powi (bitlen d - 1)"
      unfolding k_def by (simp add: power_int_add [symmetric])
    finally show ?thesis using pw [of "bitlen d - 1"] by simp
  qed
  have lower: "2 powi (k - 1) < x"
  proof -
    have "(2::rat) powi (k - 1) * of_int d < 2 powi (k - 1) * 2 powi (bitlen d)"
      using D2 pw [of "k - 1"] by (simp add: mult_strict_left_mono)
    also have "\<dots> = 2 powi (bitlen p - 1)"
      unfolding k_def by (simp add: power_int_add [symmetric])
    also have "\<dots> \<le> of_int p" by (rule P1)
    also have "\<dots> = x * of_int d" using x dpos by simp
    finally show ?thesis using dpos by simp
  qed
  show ?thesis
  proof (cases "2 powi k \<le> x")
    case True
    then have "floor_log2 x = k" by (simp add: floor_log2_def pd k_def)
    then show ?thesis using True upper by simp
  next
    case False
    then have "floor_log2 x = k - 1" by (simp add: floor_log2_def pd k_def)
    then show ?thesis using False lower by simp
  qed
qed

lemma power_int_two_mono: "a \<le> b \<Longrightarrow> (2::rat) powi a \<le> 2 powi b"
  by (rule power_int_increasing) simp_all

lemma floor_log2_unique:
  assumes "2 powi e \<le> x" "x < 2 powi (e + 1)"
  shows "floor_log2 x = e"
proof -
  have pw: "(0::rat) < 2 powi j" for j by (simp add: power_int_def)
  have x: "0 < x" using assms(1) pw [of e] by (rule less_le_trans [rotated])
  from floor_log2_bounds [OF x] have
    b: "2 powi floor_log2 x \<le> x" "x < 2 powi (floor_log2 x + 1)" by simp_all
  have "\<not> e + 1 \<le> floor_log2 x"
  proof
    assume "e + 1 \<le> floor_log2 x"
    then have "(2::rat) powi (e + 1) \<le> 2 powi floor_log2 x" by (rule power_int_two_mono)
    with b(1) assms(2) show False by simp
  qed
  moreover have "\<not> floor_log2 x + 1 \<le> e"
  proof
    assume "floor_log2 x + 1 \<le> e"
    then have "(2::rat) powi (floor_log2 x + 1) \<le> 2 powi e" by (rule power_int_two_mono)
    with b(2) assms(1) show False by simp
  qed
  ultimately show ?thesis by simp
qed

lemma power_int_two_pos: "(0::rat) < 2 powi j"
  by (simp add: power_int_def)

lemma round_positive_at:
  assumes "2 powi e \<le> x" "x < 2 powi (e + 1)"
  shows "round_positive x =
     (if (2::rat) powi 1024 \<le> of_int (round_half_even (x / 2 powi (max e (- 1022) - 52))) *
           2 powi (max e (- 1022) - 52)
      then PosInf
      else Finite (of_int (round_half_even (x / 2 powi (max e (- 1022) - 52))) *
           2 powi (max e (- 1022) - 52)))"
  by (simp add: round_positive_def floor_log2_unique [OF assms] Let_def)

lemma round_positive_not_NaN: "round_positive x \<noteq> NaN"
  by (simp add: round_positive_def Let_def)

lemma round64_not_NaN: "round64 x \<noteq> NaN"
proof -
  have "float_neg f \<noteq> NaN" if "f \<noteq> NaN" for f using that by (cases f) simp_all
  then show ?thesis by (simp add: round64_def round_positive_not_NaN)
qed

lemma round_half_even_ge_floor: "\<lfloor>m\<rfloor> \<le> round_half_even m"
  by (simp add: round_half_even_def Let_def)

lemma round_half_even_of_int: "round_half_even (of_int k) = k"
  by (simp add: round_half_even_def Let_def)

lemma round64_0: "round64 0 = Finite 0"
  by (simp add: round64_def)

lemma floor_log2_ge:
  assumes "2 powi a \<le> x"
  shows "a \<le> floor_log2 x"
proof (rule ccontr)
  assume "\<not> a \<le> floor_log2 x"
  then have "floor_log2 x + 1 \<le> a" by simp
  then have "(2::rat) powi (floor_log2 x + 1) \<le> 2 powi a" by (rule power_int_two_mono)
  moreover have "0 < x" using power_int_two_pos [of a] assms by (rule less_le_trans)
  ultimately show False using floor_log2_bounds [of x] assms by simp
qed

lemma floor_log2_less:
  assumes "0 < x" "x < 2 powi a"
  shows "floor_log2 x < a"
proof (rule ccontr)
  assume "\<not> floor_log2 x < a"
  then have "a \<le> floor_log2 x" by simp
  then have "(2::rat) powi a \<le> 2 powi floor_log2 x" by (rule power_int_two_mono)
  then show False using floor_log2_bounds [OF assms(1)] assms(2) by simp
qed

lemma round64_nonzero:
  assumes "1 / 2 \<le> x"
  shows "round64 x \<noteq> Finite 0"
proof -
  have x: "0 < x" using assms by simp
  define e where "e = floor_log2 x"
  have "(2::rat) powi (- 1) \<le> x" using assms by (simp add: power_int_minus)
  then have e: "- 1 \<le> e" unfolding e_def by (rule floor_log2_ge)
  then have q: "max e (- 1022) - 52 = e - 52" by simp
  define m where "m = x / 2 powi (e - 52)"
  have "2 powi e \<le> x" unfolding e_def using floor_log2_bounds [OF x] by simp
  then have "2 powi e / 2 powi (e - 52) \<le> m"
    unfolding m_def using power_int_two_pos [of "e - 52"] by (simp add: divide_right_mono)
  moreover have "(2::rat) powi e / 2 powi (e - 52) = 2 powi 52"
    by (simp add: power_int_diff [symmetric])
  ultimately have "(1::rat) \<le> m" by simp
  then have "1 \<le> \<lfloor>m\<rfloor>" by (simp add: le_floor_iff)
  then have "1 \<le> round_half_even m" using round_half_even_ge_floor [of m] by linarith
  then have "(0::rat) < of_int (round_half_even m) * 2 powi (e - 52)"
    using power_int_two_pos [of "e - 52"] by simp
  then have "of_int (round_half_even m) * 2 powi (e - 52) \<noteq> (0::rat)"
    by (rule less_imp_neq [THEN not_sym])
  then show ?thesis
    using x unfolding round64_def round_positive_def Let_def e_def [symmetric] q
        m_def [symmetric]
    by (simp del: mult_eq_0_iff)
qed

lemma round64_half_exact:
  assumes "0 < N" "N < 2 ^ 53"
  shows "round64 (of_int N / 2) = Finite (of_int N / 2)"
proof -
  define x :: rat where "x = of_int N / 2"
  have x: "0 < x" using assms(1) by (simp add: x_def)
  define e where "e = floor_log2 x"
  have "(1::rat) \<le> of_int N" using assms(1) by simp
  then have "(2::rat) powi (- 1) \<le> x" by (simp add: x_def power_int_minus)
  then have e1: "- 1 \<le> e" unfolding e_def by (rule floor_log2_ge)
  have "(of_int N :: rat) < of_int (2 ^ 53)" using assms(2) by (simp only: of_int_less_iff)
  then have "x < 2 powi 52" by (simp add: x_def)
  with x have e2: "e < 52" unfolding e_def by (rule floor_log2_less)
  from e1 have q: "max e (- 1022) - 52 = e - 52" by simp
  define j where "j = nat (51 - e)"
  have ej: "e - 52 = - int (Suc j)" using e2 by (simp add: j_def)
  have pw: "(2::rat) powi (e - 52) = 1 / (2 * 2 ^ j)"
    unfolding ej power_int_minus_divide power_int_of_nat by simp
  have m: "x / 2 powi (e - 52) = of_int (N * 2 ^ j)"
    by (simp add: pw x_def)
  have v: "of_int (round_half_even (x / 2 powi (e - 52))) * 2 powi (e - 52) = x"
    unfolding m round_half_even_of_int by (simp add: pw x_def)
  have "x < 2 powi 1024"
    using \<open>x < 2 powi 52\<close> power_int_two_mono [of 52 1024] by simp
  then show ?thesis
    using x v by (simp add: round64_def round_positive_def Let_def e_def [symmetric] q
        x_def [symmetric])
qed

lemma floor_rat_numeral:
  "\<lfloor>(numeral a :: rat) / numeral b\<rfloor> = numeral a div numeral b"
  using floor_divide_of_int_eq [of "numeral a" "numeral b", where ?'a = rat] by simp

lemma float_le_NaN [simp]: "float_le a NaN = False"
  by (cases a) simp_all

lemma float_gt_NaN [simp]: "float_gt a NaN = False"
  by (cases a) simp_all

lemma float_gt_iff: "q \<noteq> NaN \<Longrightarrow> float_gt (Finite u) q = (\<not> float_le (Finite u) q)"
  by (cases q) auto

lemma ieee_div_zero: "b \<noteq> NaN \<Longrightarrow> ieee_div (Finite 0) b = Finite 0"
  by (cases b) (simp_all add: round64_0)

lemma truediv_int_int:
  "b \<noteq> 0 \<Longrightarrow> truediv (PyInt a) (PyInt b) = Inr (round64 (of_int a / of_int b))"
  by simp

lemma round64_of_int_nonzero: "1 \<le> L \<Longrightarrow> round64 (of_int L) \<noteq> Finite 0"
  by (rule round64_nonzero) simp

lemma round64_half_nonzero: "1 \<le> N \<Longrightarrow> round64 (of_int N / 2) \<noteq> Finite 0"
  by (rule round64_nonzero) simp

lemma truediv_float_int:
  "1 \<le> L \<Longrightarrow> truediv (PyFloat q) (PyInt L) = Inr (ieee_div q (round64 (of_int L)))"
  by (simp add: float_div_def round64_of_int_nonzero)

lemma truediv_int_float:
  "f \<noteq> Finite 0 \<Longrightarrow> truediv (PyInt a) (PyFloat f) = Inr (ieee_div (round64 (of_int a)) f)"
  by (simp add: float_div_def)

lemma py_quotient_eq: "truediv a b = Inr d \<Longrightarrow> py_quotient a b = d"
  by (simp add: py_quotient_def)

lemma for_in_append:
  "for_in (xs @ ys) body s =
     (case for_in xs body s of Inl e \<Rightarrow> Inl e | Inr s' \<Rightarrow> for_in ys body s')"
  by (induction xs arbitrary: s) (auto split: sum.splits)

lemma for_in_upt_invariant:
  assumes "a \<le> b" and "P a s"
    and step: "\<And>i t. a \<le> i \<Longrightarrow> i < b \<Longrightarrow> P i t \<Longrightarrow> \<exists>t'. body i t = Inr t' \<and> P (Suc i) t'"
  shows "\<exists>s'. for_in [a..<b] body s = Inr s' \<and> P b s'"
  using assms(1) step
proof (induction b)
  case 0
  then show ?case using assms(2) by simp
next
  case (Suc b)
  show ?case
  proof (cases "a = Suc b")
    case True
    then show ?thesis using assms(2) by simp
  next
    case False
    with Suc.prems(1) have ab: "a \<le> b" by simp
    have "\<exists>s'. for_in [a..<b] body s = Inr s' \<and> P b s'"
      using Suc.IH [OF ab] Suc.prems(2) by (meson less_Suc_eq)
    then obtain s' where s': "for_in [a..<b] body s = Inr s'" "P b s'" by blast
    from Suc.prems(2) [OF ab _ s'(2)] obtain t' where "body b s' = Inr t'" "P (Suc b) t'"
      by auto
    then show ?thesis using ab s' by (simp add: for_in_append)
  qed
qed

lemma mutations_before_Suc:
  "mutations_before q r (Suc i) =
     (if float_le (Finite (uniforms r !! i)) q then Suc (mutations_before q r i)
      else mutations_before q r i)"
  by (simp add: mutations_before_def)

lemma mutate_body_advance:
  assumes "i < length s"
  shows "mutate_body q s i (out, advance r i (mutations_before q r i)) =
           Inr (out @ site_output q s r i, advance r (Suc i) (mutations_before q r (Suc i)))"
  using assms
  by (simp add: mutate_body_def random_random_def random_choice_def advance_def getitem_def
      site_output_def mutations_before_Suc nucleotide_choices_def)

lemma mutate_general:
  "mutate q s r =
     Inr (concat (map (site_output q s r) [0..<length s]),
          advance r (length s) (mutations_before q r (length s)))"
proof -
  let ?P = "\<lambda>i st. st = (concat (map (site_output q s r) [0..<i]),
    advance r i (mutations_before q r i))"
  have "\<exists>s'. for_in [0..<length s] (mutate_body q s) ('''', r) = Inr s' \<and> ?P (length s) s'"
  proof (rule for_in_upt_invariant [where P = ?P])
    show "?P 0 ('''', r)" by (simp add: advance_def mutations_before_def)
  next
    fix i t assume "i < length s" "?P i t"
    then show "\<exists>t'. mutate_body q s i t = Inr t' \<and> ?P (Suc i) t'"
      by (simp add: mutate_body_advance)
  qed simp
  then show ?thesis by (simp add: mutate_def)
qed

lemma mutate_eq:
  assumes "q \<noteq> NaN"
  shows "mutate q s r =
     Inr (map (mutated_site q s r) [0..<length s],
          advance r (length s) (mutations_before q r (length s)))"
proof -
  have "site_output q s r i = [mutated_site q s r i]" for i
    using assms by (simp add: site_output_def mutated_site_def float_gt_iff)
  then have "concat (map (site_output q s r) xs) = map (mutated_site q s r) xs" for xs
    by (induction xs) simp_all
  then show ?thesis by (simp add: mutate_general)
qed

lemma mutate_NaN: "mutate NaN s r = Inr ('''', advance r (length s) 0)"
proof -
  have "site_output NaN s r i = []" for i
    by (simp add: site_output_def)
  moreover have "mutations_before NaN r n = 0" for n
    by (simp add: mutations_before_def)
  ultimately show ?thesis by (simp add: mutate_general)
qed

lemma mutate_length:
  "\<exists>out n k. mutate q s r = Inr (out, advance r n k) \<and>
     length out = (if q = NaN then 0 else length s)"
proof (cases "q = NaN")
  case True
  then show ?thesis using mutate_NaN [of s r] by auto
next
  case False
  then show ?thesis using mutate_eq [OF False, of s r] by auto
qed

lemma compare_prefix:
  assumes "n \<le> length a" "n \<le> length b"
  shows "for_in [0..<n] (compare_body a b) 0 =
           Inr (length (filter (\<lambda>i. a ! i \<noteq> b ! i) [0..<n]))"
proof -
  let ?P = "\<lambda>i c. c = length (filter (\<lambda>i. a ! i \<noteq> b ! i) [0..<i])"
  have "\<exists>s'. for_in [0..<n] (compare_body a b) 0 = Inr s' \<and> ?P n s'"
  proof (rule for_in_upt_invariant [where P = ?P])
    fix i t assume "i < n" "?P i t"
    then show "\<exists>t'. compare_body a b i t = Inr t' \<and> ?P (Suc i) t'"
      using assms by (simp add: compare_body_def getitem_def)
  qed simp_all
  then show ?thesis by simp
qed

lemma compare_sequences_le:
  "length a \<le> length b \<Longrightarrow> compare_sequences a b = Inr (hamming a b)"
  by (simp add: compare_sequences_def hamming_def compare_prefix)

lemma compare_sequences_gt:
  assumes "length b < length a"
  shows "compare_sequences a b = Inl IndexError"
proof -
  have "[0..<length a] = [0..<length b] @ length b # [Suc (length b)..<length a]"
    using assms by (metis less_imp_le_nat upt_add_eq_append upt_conv_Cons le0
        le_add_diff_inverse plus_nat.add_0)
  moreover have "compare_body a b (length b) c = Inl IndexError" for c
    using assms by (simp add: compare_body_def getitem_def)
  ultimately show ?thesis
    using assms by (simp add: compare_sequences_def for_in_append compare_prefix)
qed

lemma fold_snoc_const: "fold (\<lambda>i acc. acc @ [x]) xs acc = acc @ replicate (length xs) x"
  by (induction xs arbitrary: acc) (simp_all add: replicate_app_Cons_same)

lemma initialize_original_sequence_eq:
  "initialize_original_sequence N L = replicate (nat N) (replicate (nat L) CHR ''A'')"
proof -
  have "fold (\<lambda>nucleotide indiv_sequence. indiv_sequence @ ''A'') [0..<nat L] ''''
          = replicate (nat L) CHR ''A''"
    using fold_snoc_const [of "CHR ''A''" "[0..<nat L]" "''''"] by simp
  then show ?thesis
    using fold_snoc_const [of "replicate (nat L) CHR ''A''" "[0..<nat N]" "[]"]
    by (simp add: initialize_original_sequence_def)
qed

lemma below_half: "((of_nat i :: rat) < of_int N / 2) = (i < nat ((N + 1) div 2))"
proof -
  have "((of_nat i :: rat) < of_int N / 2) = ((of_int (2 * int i) :: rat) < of_int N)"
    by (simp add: field_simps)
  also have "\<dots> = (2 * int i < N)" by (simp only: of_int_less_iff)
  also have "\<dots> = (i < nat ((N + 1) div 2))" by linarith
  finally show ?thesis .
qed

lemma split_populations_eq:
  "split_populations pop N =
     Inr (take (nat ((N + 1) div 2)) pop, drop (nat ((N + 1) div 2)) pop)"
proof -
  define k where "k = nat ((N + 1) div 2)"
  let ?P = "\<lambda>i st. st = (take (min i k) pop, take (i - k) (drop k pop))"
  have "\<exists>s'. for_in [0..<length pop] (split_body pop N) ([], []) = Inr s' \<and> ?P (length pop) s'"
  proof (rule for_in_upt_invariant [where P = ?P])
    fix i t assume i: "i < length pop" and t: "?P i t"
    show "\<exists>t'. split_body pop N i t = Inr t' \<and> ?P (Suc i) t'"
    proof (cases "i < k")
      case True
      then have "min i k = i" "min (Suc i) k = Suc i" "Suc i - k = 0" "i - k = 0" by auto
      then show ?thesis using i t True
        unfolding split_body_def below_half k_def [symmetric]
        by (simp add: getitem_def take_Suc_conv_app_nth)
    next
      case False
      then have m: "min i k = k" "min (Suc i) k = k" "Suc i - k = Suc (i - k)" by auto
      have "i - k < length (drop k pop)" using i False by simp
      then have "take (Suc (i - k)) (drop k pop) = take (i - k) (drop k pop) @ [pop ! i]"
        using False by (simp add: take_Suc_conv_app_nth)
      then show ?thesis using i t False m
        unfolding split_body_def below_half k_def [symmetric]
        by (simp add: getitem_def)
    qed
  qed simp_all
  then show ?thesis by (simp add: split_populations_def k_def min_def)
qed

lemma advance_0: "advance r 0 0 = r"
  by (simp add: advance_def)

lemma advance_advance: "advance (advance r n k) n' k' = advance r (n + n') (k + k')"
  by (simp add: advance_def)

lemma concat_site_output:
  assumes "q \<noteq> NaN"
  shows "concat (map (site_output q s r) xs) = map (mutated_site q s r) xs"
proof -
  have "site_output q s r i = [mutated_site q s r i]" for i
    using assms by (simp add: site_output_def mutated_site_def float_gt_iff)
  then show ?thesis by (induction xs) simp_all
qed

lemma concat_site_output_NaN: "concat (map (site_output NaN s r) xs) = []"
  by (simp add: site_output_def)

lemma reproduce_general:
  "\<exists>pop' n k. reproduce q pop r = Inr (pop', advance r n k) \<and> length pop' = length pop \<and>
     (\<forall>i<length pop. \<exists>n k.
        pop' ! i = concat (map (site_output q (pop ! i) (advance r n k)) [0..<length (pop ! i)]))"
proof -
  let ?P = "\<lambda>i st. length (fst st) = i \<and> (\<exists>n k. snd st = advance r n k) \<and>
     (\<forall>j<i. \<exists>n k.
        fst st ! j =
          concat (map (site_output q (pop ! j) (advance r n k)) [0..<length (pop ! j)]))"
  have "\<exists>s'. for_in [0..<length pop] (reproduce_body q pop) ([], r) = Inr s' \<and>
          ?P (length pop) s'"
  proof (rule for_in_upt_invariant [where P = ?P])
    show "?P 0 ([], r)" using advance_0 [of r] by (metis fst_conv snd_conv list.size(3) not_less0)
  next
    fix i t assume i: "i < length pop" and t: "?P i t"
    obtain ng r' where t_eq: "t = (ng, r')" by (cases t)
    from t t_eq obtain n k where r': "r' = advance r n k" by auto
    let ?s = "concat (map (site_output q (pop ! i) r') [0..<length (pop ! i)])"
    let ?r = "advance r' (length (pop ! i)) (mutations_before q r' (length (pop ! i)))"
    have body: "reproduce_body q pop i t = Inr (ng @ [?s], ?r)"
      using i by (simp add: reproduce_body_def t_eq getitem_def mutate_general)
    have "?P (Suc i) (ng @ [?s], ?r)"
    proof (intro conjI allI impI)
      show "length (fst (ng @ [?s], ?r)) = Suc i" using t t_eq by simp
      show "\<exists>n k. snd (ng @ [?s], ?r) = advance r n k"
        using r' advance_advance by (metis snd_conv)
      fix j assume "j < Suc i"
      then consider "j < i" | "j = i" by linarith
      then show "\<exists>n k. fst (ng @ [?s], ?r) ! j =
          concat (map (site_output q (pop ! j) (advance r n k)) [0..<length (pop ! j)])"
      proof cases
        case 1
        then show ?thesis using t t_eq by (simp add: nth_append)
      next
        case 2
        have "length ng = i" using t t_eq by simp
        then have "fst (ng @ [?s], ?r) ! j = ?s" using 2 by (simp add: nth_append)
        then show ?thesis using 2 r' by blast
      qed
    qed
    then show "\<exists>t'. reproduce_body q pop i t = Inr t' \<and> ?P (Suc i) t'"
      using body by blast
  qed simp
  then show ?thesis by (auto simp: reproduce_def)
qed

lemma reproduce_sites:
  assumes "q \<noteq> NaN"
  shows "\<exists>pop' n k. reproduce q pop r = Inr (pop', advance r n k) \<and> length pop' = length pop \<and>
     (\<forall>i<length pop. \<exists>n k.
        pop' ! i = map (mutated_site q (pop ! i) (advance r n k)) [0..<length (pop ! i)])"
  using reproduce_general [of q pop r] by (simp add: concat_site_output [OF assms])

lemma reproduce_lengths:
  "\<exists>pop' r'. reproduce q pop r = Inr (pop', r') \<and> length pop' = length pop \<and>
     (\<forall>i<length pop. length (pop' ! i) = (if q = NaN then 0 else length (pop ! i)))"
proof (cases "q = NaN")
  case True
  from reproduce_general [of q pop r] obtain pop' n k where
    p: "reproduce q pop r = Inr (pop', advance r n k)" "length pop' = length pop"
    "\<forall>i<length pop. \<exists>n k.
        pop' ! i = concat (map (site_output q (pop ! i) (advance r n k)) [0..<length (pop ! i)])"
    by blast
  from p(3) True have "\<forall>i<length pop. pop' ! i = []"
    by (simp add: concat_site_output_NaN)
  with p(1,2) True show ?thesis by auto
next
  case False
  from reproduce_sites [OF False, of pop r] obtain pop' n k where
    p: "reproduce q pop r = Inr (pop', advance r n k)" "length pop' = length pop"
    "\<forall>i<length pop. \<exists>n k.
        pop' ! i = map (mutated_site q (pop ! i) (advance r n k)) [0..<length (pop ! i)]"
    by blast
  from p(3) have "\<forall>i<length pop. length (pop' ! i) = length (pop ! i)"
    by (metis length_map length_upt minus_nat.diff_0)
  with p(1,2) False show ?thesis by auto
qed

lemma reproduce_all_of_length:
  assumes "all_of_length l pop"
  shows "\<exists>pop' r'. reproduce q pop r = Inr (pop', r') \<and> length pop' = length pop \<and>
     all_of_length (if q = NaN then 0 else l) pop'"
proof -
  from reproduce_lengths [of q pop r] obtain pop' r' where
    p: "reproduce q pop r = Inr (pop', r')" "length pop' = length pop"
    "\<forall>i<length pop. length (pop' ! i) = (if q = NaN then 0 else length (pop ! i))" by blast
  have "all_of_length (if q = NaN then 0 else l) pop'"
    unfolding all_of_length_def
  proof
    fix s assume "s \<in> set pop'"
    then obtain i where "i < length pop'" "s = pop' ! i" by (metis in_set_conv_nth)
    then show "length s = (if q = NaN then 0 else l)"
      using p(2,3) assms by (simp add: all_of_length_def)
  qed
  with p show ?thesis by blast
qed

lemma reproduce_same_length:
  assumes "same_length pop"
  shows "\<exists>pop' r'. reproduce q pop r = Inr (pop', r') \<and> length pop' = length pop \<and>
     same_length pop'"
proof -
  from assms obtain l where "all_of_length l pop" unfolding same_length_def ..
  from reproduce_all_of_length [OF this, of q r] obtain pop' r' where
    p: "reproduce q pop r = Inr (pop', r')" "length pop' = length pop"
    "all_of_length (if q = NaN then 0 else l) pop'" by blast
  from p(3) have "same_length pop'" unfolding same_length_def ..
  with p(1,2) show ?thesis by blast
qed

lemma same_length_le:
  assumes "same_length pop" "a \<in> set pop" "b \<in> set pop"
  shows "length a \<le> length b"
proof -
  from assms(1) obtain l where "all_of_length l pop" unfolding same_length_def ..
  then have "length a = l" "length b = l"
    using assms(2,3) unfolding all_of_length_def by blast+
  then show ?thesis by simp
qed

lemma fold_plus_sum_list: "fold (\<lambda>value s. s + value) ds (a::nat) = a + sum_list ds"
  by (induction ds arbitrary: a) simp_all

lemma distances_outer_eq:
  assumes i: "i < length pop"
    and len: "\<And>a b. a \<in> set pop \<Longrightarrow> b \<in> set pop \<Longrightarrow> length a \<le> length b"
  shows "distances_outer pop i ds =
           Inr (ds @ map (\<lambda>j. hamming (pop ! i) (pop ! j)) [Suc i..<length pop])"
proof -
  let ?P = "\<lambda>j t. t = ds @ map (\<lambda>j. hamming (pop ! i) (pop ! j)) [Suc i..<j]"
  have "\<exists>s'. for_in [Suc i..<length pop] (distances_inner pop i) ds = Inr s' \<and>
          ?P (length pop) s'"
  proof (rule for_in_upt_invariant [where P = ?P])
    show "Suc i \<le> length pop" using i by simp
  next
    fix j t assume j: "j < length pop" and t: "?P j t" and ij: "Suc i \<le> j"
    have "compare_sequences (pop ! i) (pop ! j) = Inr (hamming (pop ! i) (pop ! j))"
      using i j len by (simp add: compare_sequences_le)
    then show "\<exists>t'. distances_inner pop i j t = Inr t' \<and> ?P (Suc j) t'"
      using i j t ij by (simp add: distances_inner_def getitem_def)
  qed simp
  then show ?thesis by (simp add: distances_outer_def)
qed

lemma distances_eq:
  assumes len: "\<And>a b. a \<in> set pop \<Longrightarrow> b \<in> set pop \<Longrightarrow> length a \<le> length b"
  shows "for_in [0..<length pop] (distances_outer pop) [] =
           Inr (map (\<lambda>(i, j). hamming (pop ! i) (pop ! j)) (unordered_pairs (length pop)))"
proof -
  let ?row = "\<lambda>i. map (\<lambda>j. hamming (pop ! i) (pop ! j)) [Suc i..<length pop]"
  let ?P = "\<lambda>i t. t = concat (map ?row [0..<i])"
  have "\<exists>s'. for_in [0..<length pop] (distances_outer pop) [] = Inr s' \<and> ?P (length pop) s'"
  proof (rule for_in_upt_invariant [where P = ?P])
    fix i t assume "i < length pop" "?P i t"
    then show "\<exists>t'. distances_outer pop i t = Inr t' \<and> ?P (Suc i) t'"
      using len by (simp add: distances_outer_eq)
  qed simp_all
  moreover have "concat (map ?row [0..<length pop]) =
      map (\<lambda>(i, j). hamming (pop ! i) (pop ! j)) (unordered_pairs (length pop))"
    by (simp add: unordered_pairs_def map_concat comp_def)
  ultimately show ?thesis by simp
qed

lemma genetic_distance_eq:
  assumes len: "\<And>a b. a \<in> set pop \<Longrightarrow> b \<in> set pop \<Longrightarrow> length a \<le> length b"
  shows "genetic_distance pop N L =
     (case truediv (PyInt (int (pair_total pop))) N of
        Inl e \<Rightarrow> Inl e
      | Inr q \<Rightarrow> truediv (PyFloat q) (PyInt L))"
  by (simp add: genetic_distance_def distances_eq [OF len] fold_plus_sum_list pair_total_def)

lemma genetic_distance_same_length:
  assumes "same_length pop"
  shows "genetic_distance pop N L =
     (case truediv (PyInt (int (pair_total pop))) N of
        Inl e \<Rightarrow> Inl e
      | Inr q \<Rightarrow> truediv (PyFloat q) (PyInt L))"
  by (rule genetic_distance_eq) (rule same_length_le [OF assms])

lemma genetic_distance_int:
  assumes "same_length pop" "N \<noteq> 0" "1 \<le> L"
  shows "genetic_distance pop (PyInt N) L = Inr (recorded_distance pop (PyInt N) L)"
  using assms(2,3)
  by (simp add: genetic_distance_same_length [OF assms(1)] recorded_distance_def
      py_quotient_def float_div_def round64_of_int_nonzero)

lemma genetic_distance_float:
  assumes "same_length pop" "f \<noteq> Finite 0" "1 \<le> L"
  shows "genetic_distance pop (PyFloat f) L = Inr (recorded_distance pop (PyFloat f) L)"
  using assms(2,3)
  by (simp add: genetic_distance_same_length [OF assms(1)] recorded_distance_def
      py_quotient_def float_div_def round64_of_int_nonzero)

lemma genetic_distance_half_eq:
  assumes "same_length pop" "1 \<le> N" "1 \<le> L"
  shows "genetic_distance_half pop N L =
     Inr (recorded_distance pop (PyFloat (round64 (of_int N / 2))) L)"
  using genetic_distance_float [OF assms(1) round64_half_nonzero [OF assms(2)] assms(3)]
  by (simp add: genetic_distance_half_def)

lemma set_unordered_pairs: "set (unordered_pairs n) = {(i, j). i < j \<and> j < n}"
proof -
  have "(a, b) \<in> set (unordered_pairs n) \<longleftrightarrow> a < b \<and> b < n" for a b
    by (auto simp: unordered_pairs_def image_iff)
  then show ?thesis by auto
qed

lemma distinct_unordered_pairs: "distinct (unordered_pairs n)"
proof -
  let ?row = "\<lambda>i. map (Pair i) [Suc i..<n]"
  have "inj_on ?row {0..<n}"
  proof (rule inj_onI)
    fix x y assume "x \<in> {0..<n}" "y \<in> {0..<n}" "?row x = ?row y"
    then have "length (?row x) = length (?row y)" "x < n" "y < n" by simp_all
    then show "x = y" by simp
  qed
  then have "distinct (map ?row [0..<n])" by (simp add: distinct_map)
  moreover have "distinct ys" if "ys \<in> set (map ?row [0..<n])" for ys
    using that by (auto simp: distinct_map inj_on_def)
  moreover have "set ys \<inter> set zs = {}"
    if "ys \<in> set (map ?row [0..<n])" "zs \<in> set (map ?row [0..<n])" "ys \<noteq> zs" for ys zs
    using that by auto
  ultimately show ?thesis unfolding unordered_pairs_def by (rule distinct_concat)
qed

lemma triangle_sum: "sum_list (map (\<lambda>i. n - Suc i) [0..<n]) = n choose 2"
proof (induction n)
  case 0
  then show ?case by simp
next
  case (Suc n)
  have "[0..<Suc n] = 0 # map Suc [0..<n]"
    by (simp add: upt_conv_Cons map_Suc_upt del: upt_Suc)
  then have "sum_list (map (\<lambda>i. Suc n - Suc i) [0..<Suc n]) =
      n + sum_list (map (\<lambda>i. n - Suc i) [0..<n])"
    by (simp add: comp_def del: upt_Suc)
  then show ?case using Suc.IH by (simp add: numeral_2_eq_2 del: upt_Suc)
qed

lemma length_unordered_pairs: "length (unordered_pairs n) = n choose 2"
  using triangle_sum [of n]
  by (simp add: unordered_pairs_def length_concat comp_def)

lemma no_split_body_eq: "no_split_body N L q flag = pre_split_body N L q True"
  by (rule ext, rule ext) (simp add: no_split_body_def pre_split_body_def split: sum.splits)

lemma pre_split_body_ok:
  assumes "same_length (new_generation_sequence st)" "N \<noteq> 0" "1 \<le> L"
  shows "\<exists>pop' r'. reproduce q (new_generation_sequence st) (rand st) = Inr (pop', r') \<and>
     length pop' = length (new_generation_sequence st) \<and> same_length pop' \<and>
     pre_split_body N L q flag gen st =
       Inr (st\<lparr>generations := generations st @ [generation_number st],
               avg_genetic_distances := avg_genetic_distances st @
                 [recorded_distance (new_generation_sequence st) (PyInt N) L],
               new_generation_sequence := pop',
               rand := r',
               generation_number := generation_number st + 1\<rparr>)"
proof -
  from reproduce_same_length [OF assms(1), of q "rand st"] obtain pop' r' where
    p: "reproduce q (new_generation_sequence st) (rand st) = Inr (pop', r')"
    "length pop' = length (new_generation_sequence st)" "same_length pop'" by blast
  have "genetic_distance (new_generation_sequence st) (PyInt N) L =
      Inr (recorded_distance (new_generation_sequence st) (PyInt N) L)"
    using assms by (rule genetic_distance_int)
  then show ?thesis using p by (simp add: pre_split_body_def)
qed

lemma pre_split_loop:
  assumes "same_length (new_generation_sequence st)" "N \<noteq> 0" "1 \<le> L"
  shows "\<exists>st'. for_in [0..<n] (pre_split_body N L q flag) st = Inr st' \<and>
     same_length (new_generation_sequence st') \<and>
     length (new_generation_sequence st') = length (new_generation_sequence st) \<and>
     generations st' = generations st @ map (\<lambda>k. generation_number st + int k) [0..<n] \<and>
     generation_number st' = generation_number st + int n \<and>
     length (avg_genetic_distances st') = length (avg_genetic_distances st) + n \<and>
     population1 st' = population1 st \<and> population2 st' = population2 st"
proof -
  let ?P = "\<lambda>i (st'::sim_state). same_length (new_generation_sequence st') \<and>
     length (new_generation_sequence st') = length (new_generation_sequence st) \<and>
     generations st' = generations st @ map (\<lambda>k. generation_number st + int k) [0..<i] \<and>
     generation_number st' = generation_number st + int i \<and>
     length (avg_genetic_distances st') = length (avg_genetic_distances st) + i \<and>
     population1 st' = population1 st \<and> population2 st' = population2 st"
  show ?thesis
  proof (rule for_in_upt_invariant [where P = ?P])
    show "?P 0 st" using assms(1) by simp
  next
    fix i t assume t: "?P i t"
    then have "same_length (new_generation_sequence t)" by blast
    from pre_split_body_ok [OF this assms(2,3), of q flag i] obtain pop' r' where
      "length pop' = length (new_generation_sequence t)" "same_length pop'"
      "pre_split_body N L q flag i t =
         Inr (t\<lparr>generations := generations t @ [generation_number t],
               avg_genetic_distances := avg_genetic_distances t @
                 [recorded_distance (new_generation_sequence t) (PyInt N) L],
               new_generation_sequence := pop',
               rand := r',
               generation_number := generation_number t + 1\<rparr>)" by blast
    then show "\<exists>t'. pre_split_body N L q flag i t = Inr t' \<and> ?P (Suc i) t'"
      using t by simp
  qed simp
qed

lemma post_split_body_ok:
  assumes "same_length (population1 st)" "same_length (population2 st)"
    "1 \<le> N" "1 \<le> L"
  shows "\<exists>pop' r'. same_length pop' \<and> length pop' = length (population2 st) \<and>
     post_split_body N L q flag gen st =
       Inr (st\<lparr>generations := generations st @ [generation_number st, generation_number st],
               avg_genetic_distances := avg_genetic_distances st @
                 [recorded_distance (population1 st) (PyFloat (round64 (of_int N / 2))) L,
                  recorded_distance (population2 st) (PyFloat (round64 (of_int N / 2))) L],
               new_generation_sequence := pop',
               rand := r',
               generation_number := generation_number st + 1\<rparr>)"
proof -
  from reproduce_same_length [OF assms(1), of q "rand st"] obtain next1 r1 where
    p1: "reproduce q (population1 st) (rand st) = Inr (next1, r1)" by blast
  from reproduce_same_length [OF assms(2), of q r1] obtain next2 r2 where
    p2: "reproduce q (population2 st) r1 = Inr (next2, r2)"
    "length next2 = length (population2 st)" "same_length next2" by blast
  have "genetic_distance_half (population1 st) N L =
      Inr (recorded_distance (population1 st) (PyFloat (round64 (of_int N / 2))) L)"
    "genetic_distance_half (population2 st) N L =
      Inr (recorded_distance (population2 st) (PyFloat (round64 (of_int N / 2))) L)"
    by (rule genetic_distance_half_eq [OF assms(1,3,4)],
        rule genetic_distance_half_eq [OF assms(2,3,4)])
  then have "post_split_body N L q flag gen st =
       Inr (st\<lparr>generations := generations st @ [generation_number st, generation_number st],
               avg_genetic_distances := avg_genetic_distances st @
                 [recorded_distance (population1 st) (PyFloat (round64 (of_int N / 2))) L,
                  recorded_distance (population2 st) (PyFloat (round64 (of_int N / 2))) L],
               new_generation_sequence := next2,
               rand := r2,
               generation_number := generation_number st + 1\<rparr>)"
    using p1 p2 by (simp add: post_split_body_def)
  with p2 show ?thesis by blast
qed

lemma concat_replicate_Suc: "concat (replicate (Suc n) xs) = concat (replicate n xs) @ xs"
  by (induction n) simp_all

lemma post_split_loop:
  assumes "same_length (population1 st)" "same_length (population2 st)"
    "same_length (new_generation_sequence st)" "1 \<le> N" "1 \<le> L"
  shows "\<exists>st'. for_in [a..<a + n] (post_split_body N L q flag) st = Inr st' \<and>
     same_length (new_generation_sequence st') \<and>
     generations st' = generations st @
       concat (map (\<lambda>k. [generation_number st + int k, generation_number st + int k]) [0..<n]) \<and>
     generation_number st' = generation_number st + int n \<and>
     avg_genetic_distances st' = avg_genetic_distances st @
       concat (replicate n
         [recorded_distance (population1 st) (PyFloat (round64 (of_int N / 2))) L,
          recorded_distance (population2 st) (PyFloat (round64 (of_int N / 2))) L]) \<and>
     population1 st' = population1 st \<and> population2 st' = population2 st"
proof -
  let ?P = "\<lambda>i (st'::sim_state). same_length (new_generation_sequence st') \<and>
     generations st' = generations st @
       concat (map (\<lambda>k. [generation_number st + int k, generation_number st + int k])
         [0..<i - a]) \<and>
     generation_number st' = generation_number st + int (i - a) \<and>
     avg_genetic_distances st' = avg_genetic_distances st @
       concat (replicate (i - a)
         [recorded_distance (population1 st) (PyFloat (round64 (of_int N / 2))) L,
          recorded_distance (population2 st) (PyFloat (round64 (of_int N / 2))) L]) \<and>
     population1 st' = population1 st \<and> population2 st' = population2 st"
  have "\<exists>st'. for_in [a..<a + n] (post_split_body N L q flag) st = Inr st' \<and> ?P (a + n) st'"
  proof (rule for_in_upt_invariant [where P = ?P])
    show "?P a st" using assms(3) by simp
  next
    fix i t assume t: "?P i t" and ai: "a \<le> i"
    then have "same_length (population1 t)" "same_length (population2 t)"
      using assms(1,2) by simp_all
    from post_split_body_ok [OF this assms(4,5), of q flag i] obtain pop' r' where
      "same_length pop'"
      "post_split_body N L q flag i t =
       Inr (t\<lparr>generations := generations t @ [generation_number t, generation_number t],
               avg_genetic_distances := avg_genetic_distances t @
                 [recorded_distance (population1 t) (PyFloat (round64 (of_int N / 2))) L,
                  recorded_distance (population2 t) (PyFloat (round64 (of_int N / 2))) L],
               new_generation_sequence := pop',
               rand := r',
               generation_number := generation_number t + 1\<rparr>)" by blast
    moreover have "Suc i - a = Suc (i - a)" using ai by simp
    ultimately show "\<exists>t'. post_split_body N L q flag i t = Inr t' \<and> ?P (Suc i) t'"
      using t by (simp add: concat_replicate_Suc del: replicate_Suc)
  qed simp
  then show ?thesis by simp
qed

lemma all_of_length_take_drop:
  "all_of_length l pop \<Longrightarrow> all_of_length l (take k pop) \<and> all_of_length l (drop k pop)"
  by (auto simp: all_of_length_def dest: in_set_takeD in_set_dropD)

lemma same_length_take_drop:
  "same_length pop \<Longrightarrow> same_length (take k pop) \<and> same_length (drop k pop)"
  unfolding same_length_def using all_of_length_take_drop by blast

lemma initial_state_simps:
  "new_generation_sequence (initial_state N L r) = replicate (nat N) (replicate (nat L) CHR ''A'')"
  "generations (initial_state N L r) = []"
  "avg_genetic_distances (initial_state N L r) = []"
  "generation_number (initial_state N L r) = 1"
  "population1 (initial_state N L r) = []"
  "population2 (initial_state N L r) = []"
  "rand (initial_state N L r) = r"
  by (simp_all add: initial_state_def initialize_original_sequence_eq)

lemma initial_same_length:
  "same_length (new_generation_sequence (initial_state N L r))"
proof -
  have "all_of_length (nat L) (new_generation_sequence (initial_state N L r))"
    by (simp add: initial_state_simps all_of_length_def)
  then show ?thesis unfolding same_length_def ..
qed

lemma main_split:
  assumes "0 < N" "0 < L" "0 \<le> g" "g < G"
  shows "\<exists>st1 st.
     for_in [0..<nat g] (pre_split_body N L q flag) (initial_state N L r) = Inr st1 \<and>
     main N L q g G flag r = Inr st \<and>
     length (new_generation_sequence st1) = nat N \<and>
     population1 st = take (nat ((N + 1) div 2)) (new_generation_sequence st1) \<and>
     population2 st = drop (nat ((N + 1) div 2)) (new_generation_sequence st1) \<and>
     generations st = map (\<lambda>k. 1 + int k) [0..<nat g] @
       concat (map (\<lambda>k. [1 + g + int k, 1 + g + int k]) [0..<nat (G - g)]) \<and>
     length (avg_genetic_distances st1) = nat g \<and>
     avg_genetic_distances st = avg_genetic_distances st1 @
       concat (replicate (nat (G - g))
         [recorded_distance (population1 st) (PyFloat (round64 (of_int N / 2))) L,
          recorded_distance (population2 st) (PyFloat (round64 (of_int N / 2))) L])"
proof -
  let ?st0 = "initial_state N L r"
  define k where "k = nat ((N + 1) div 2)"
  have N0: "N \<noteq> 0" and N1: "1 \<le> N" and L1: "1 \<le> L" using assms by simp_all
  from pre_split_loop [OF initial_same_length [where L = L and N = N and r = r] N0 L1,
      where n = "nat g" and q = q and flag = flag]
  obtain st1 where st1:
    "for_in [0..<nat g] (pre_split_body N L q flag) ?st0 = Inr st1"
    "same_length (new_generation_sequence st1)"
    "length (new_generation_sequence st1) = nat N"
    "generations st1 = map (\<lambda>k. 1 + int k) [0..<nat g]"
    "generation_number st1 = 1 + int (nat g)"
    "length (avg_genetic_distances st1) = nat g"
    by (auto simp: initial_state_simps)
  let ?p1 = "take k (new_generation_sequence st1)"
  let ?p2 = "drop k (new_generation_sequence st1)"
  let ?st1' = "st1\<lparr>population1 := ?p1, population2 := ?p2\<rparr>"
  have split: "split_populations (new_generation_sequence st1) N = Inr (?p1, ?p2)"
    by (simp add: split_populations_eq k_def)
  have u: "same_length (population1 ?st1')" "same_length (population2 ?st1')"
    "same_length (new_generation_sequence ?st1')"
    using st1(2) same_length_take_drop [OF st1(2), of k] by simp_all
  have range: "[nat g..<nat G] = [nat g..<nat g + nat (G - g)]"
    using assms by (simp add: nat_diff_distrib)
  from post_split_loop [OF u N1 L1,
      where a = "nat g" and n = "nat (G - g)" and q = q and flag = flag]
  obtain st where st:
    "for_in [nat g..<nat G] (post_split_body N L q flag) ?st1' = Inr st"
    "generations st = generations st1 @
       concat (map (\<lambda>k. [generation_number st1 + int k, generation_number st1 + int k])
         [0..<nat (G - g)])"
    "avg_genetic_distances st = avg_genetic_distances st1 @
       concat (replicate (nat (G - g))
         [recorded_distance ?p1 (PyFloat (round64 (of_int N / 2))) L,
          recorded_distance ?p2 (PyFloat (round64 (of_int N / 2))) L])"
    "population1 st = ?p1" "population2 st = ?p2"
    unfolding range by auto
  have a: "same_length (population1 st)" and b: "same_length (population2 st)"
    using u(1,2) st(4,5) by simp_all
  have gd: "genetic_distance_half (population1 st) N L =
        Inr (recorded_distance (population1 st) (PyFloat (round64 (of_int N / 2))) L)"
      "genetic_distance_half (population2 st) N L =
        Inr (recorded_distance (population2 st) (PyFloat (round64 (of_int N / 2))) L)"
    by (rule genetic_distance_half_eq [OF a N1 L1],
        rule genetic_distance_half_eq [OF b N1 L1])
  have "main N L q g G flag r = Inr st"
    using assms(4) st1(1) split st(1) gd by (simp add: main_def)
  moreover have "1 + int (nat g) = 1 + g" using assms(3) by simp
  ultimately show ?thesis
    using st1 st unfolding k_def by auto
qed




lemma round_half_even_le: "round_half_even m \<le> \<lfloor>m\<rfloor> + 1"
  by (simp add: round_half_even_def Let_def)

lemma round64_normal:
  assumes "2 powi e \<le> x" "x < 2 powi (e + 1)" "- 1022 \<le> e" "e \<le> 1022"
  shows "round64 x =
     Finite (of_int (round_half_even (x / 2 powi (e - 52))) * 2 powi (e - 52))"
proof -
  have x: "0 < x" using power_int_two_pos [of e] assms(1) by (rule less_le_trans)
  have q: "max e (- 1022) - 52 = e - 52" using assms(3) by simp
  define m where "m = x / 2 powi (e - 52)"
  define w :: rat where "w = 2 powi (e - 52)"
  have w: "0 < w" unfolding w_def by (rule power_int_two_pos)
  have e1: "e + 1 = 53 + (e - 52)" by simp
  have "m < 2 powi (e + 1) / 2 powi (e - 52)"
    unfolding m_def using assms(2) power_int_two_pos [of "e - 52"]
    by (simp add: divide_strict_right_mono)
  moreover have "(2::rat) powi (e + 1) / 2 powi (e - 52) = 2 powi 53"
    by (simp add: power_int_diff [symmetric])
  ultimately have "m < of_int (2 ^ 53)" by simp
  then have "\<lfloor>m\<rfloor> < 2 ^ 53" by (simp only: floor_less_iff)
  then have "round_half_even m \<le> 2 ^ 53" using round_half_even_le [of m] by linarith
  then have "(of_int (round_half_even m) :: rat) \<le> of_int (2 ^ 53)"
    by (simp only: of_int_le_iff)
  then have "(of_int (round_half_even m) :: rat) \<le> 2 powi 53" by simp
  then have "of_int (round_half_even m) * w \<le> 2 powi 53 * w"
    using w by (rule mult_right_mono [OF _ less_imp_le])
  also have "2 powi 53 * w = 2 powi (e + 1)"
    unfolding w_def e1 by (rule power_int_add [symmetric]) simp
  also have "(2::rat) powi (e + 1) \<le> 2 powi 1023"
    using assms(4) by (intro power_int_two_mono) simp
  also have "(2::rat) powi 1023 < 2 powi 1024"
    by (rule power_int_strict_increasing) simp_all
  finally have "\<not> 2 powi 1024 \<le> of_int (round_half_even m) * w" by (simp only: not_le)
  then have "round_positive x = Finite (of_int (round_half_even m) * w)"
    unfolding round_positive_at [OF assms(1,2)] q m_def w_def by (rule if_not_P)
  then show ?thesis using x unfolding m_def w_def by (simp add: round64_def)
qed

lemma round64_of_int_exact:
  assumes "0 < k" "k < 2 ^ 52"
  shows "round64 (of_int k) = Finite (of_int k)"
  using round64_half_exact [of "2 * k"] assms by simp

lemma hamming_card: "hamming a b = card {i. i < length a \<and> a ! i \<noteq> b ! i}"
proof -
  have "hamming a b = card (set (filter (\<lambda>i. a ! i \<noteq> b ! i) [0..<length a]))"
    unfolding hamming_def by (rule distinct_card [symmetric]) simp
  also have "set (filter (\<lambda>i. a ! i \<noteq> b ! i) [0..<length a]) =
      {i. i < length a \<and> a ! i \<noteq> b ! i}"
    by auto
  finally show ?thesis .
qed

lemma floor_half: "\<lfloor>(of_int N :: rat) / 2\<rfloor> = N div 2"
  using floor_divide_of_int_eq [of N 2, where ?'a = rat] by simp

lemma ceiling_half: "\<lceil>(of_int N :: rat) / 2\<rceil> = (N + 1) div 2"
proof -
  have "\<lceil>(of_int N :: rat) / 2\<rceil> = - \<lfloor>(of_int (- N) :: rat) / 2\<rfloor>"
    by (simp add: ceiling_def)
  also have "\<dots> = - ((- N) div 2)" by (simp only: floor_half)
  also have "\<dots> = (N + 1) div 2" by linarith
  finally show ?thesis .
qed

lemma genetic_distance_int_value:
  assumes "same_length pop" "N \<noteq> 0" "1 \<le> L"
  shows "genetic_distance pop (PyInt N) L =
     Inr (ieee_div (round64 (of_nat (pair_total pop) / of_int N)) (round64 (of_int L)))"
  using assms(2,3)
  by (simp add: genetic_distance_same_length [OF assms(1)] float_div_def
      round64_of_int_nonzero)

lemma recorded_distance_half_value:
  assumes "1 \<le> N" "1 \<le> L"
  shows "recorded_distance pop (PyFloat (round64 (of_int N / 2))) L =
     ieee_div (ieee_div (round64 (of_nat (pair_total pop))) (round64 (of_int N / 2)))
       (round64 (of_int L))"
  using assms
  by (simp add: recorded_distance_def py_quotient_def float_div_def round64_of_int_nonzero
      round64_half_nonzero)

lemma genetic_distance_half_value:
  assumes "same_length pop" "1 \<le> N" "1 \<le> L"
  shows "genetic_distance_half pop N L =
     Inr (ieee_div (ieee_div (round64 (of_nat (pair_total pop))) (round64 (of_int N / 2)))
       (round64 (of_int L)))"
  using genetic_distance_half_eq [OF assms] recorded_distance_half_value [OF assms(2,3)]
  by simp

lemma zero_distance:
  assumes "b \<noteq> NaN" "c \<noteq> NaN"
  shows "ieee_div (ieee_div (Finite 0) b) c = Finite 0"
  using assms by (simp add: ieee_div_zero)

lemma uniforms_advance: "uniforms (advance r n k) !! i = uniforms r !! (n + i)"
  by (simp add: advance_def sdrop_snth)

lemma picks_advance: "picks (advance r n k) !! i = picks r !! (k + i)"
  by (simp add: advance_def sdrop_snth)

lemma mutated_site_keep:
  assumes "\<forall>u\<in>sset (uniforms r). \<not> float_le (Finite u) q"
  shows "mutated_site q s (advance r n k) i = s ! i"
proof -
  have "uniforms r !! (n + i) \<in> sset (uniforms r)" by simp
  with assms have "\<not> float_le (Finite (uniforms r !! (n + i))) q" by blast
  then show ?thesis by (simp add: mutated_site_def uniforms_advance)
qed

lemma nucleotide_choices_mod:
  "nucleotide_choices ! (k mod 3) \<in> {CHR ''C'', CHR ''T'', CHR ''G''}"
proof -
  have "k mod 3 = 0 \<or> k mod 3 = 1 \<or> k mod 3 = 2" by linarith
  then show ?thesis by (auto simp: nucleotide_choices_def)
qed

lemma mutated_site_replace:
  assumes "\<forall>u\<in>sset (uniforms r). float_le (Finite u) q"
  shows "mutated_site q s (advance r n k) i \<in> {CHR ''C'', CHR ''T'', CHR ''G''}"
proof -
  have "uniforms r !! (n + i) \<in> sset (uniforms r)" by simp
  with assms have "float_le (Finite (uniforms r !! (n + i))) q" by blast
  then show ?thesis
    using nucleotide_choices_mod by (simp add: mutated_site_def uniforms_advance)
qed

lemma reproduce_keep:
  assumes "q \<noteq> NaN" and "\<forall>u\<in>sset (uniforms r). \<not> float_le (Finite u) q"
  shows "\<exists>r'. reproduce q pop r = Inr (pop, r')"
proof -
  from reproduce_sites [OF assms(1), of pop r] obtain pop' n k where
    p: "reproduce q pop r = Inr (pop', advance r n k)" "length pop' = length pop"
    "\<forall>i<length pop. \<exists>n k.
        pop' ! i = map (mutated_site q (pop ! i) (advance r n k)) [0..<length (pop ! i)]"
    by blast
  have "pop' = pop"
  proof (rule nth_equalityI)
    show "length pop' = length pop" by (rule p(2))
  next
    fix i assume "i < length pop'"
    then have "i < length pop" using p(2) by simp
    with p(3) obtain n k where
      "pop' ! i = map (mutated_site q (pop ! i) (advance r n k)) [0..<length (pop ! i)]"
      by blast
    then have "pop' ! i = map (\<lambda>j. pop ! i ! j) [0..<length (pop ! i)]"
      using mutated_site_keep [OF assms(2)] by simp
    then show "pop' ! i = pop ! i" by (simp add: map_nth)
  qed
  with p(1) show ?thesis by blast
qed

lemma reproduce_replace:
  assumes "\<forall>u\<in>sset (uniforms r). float_le (Finite u) q"
  shows "\<exists>pop' r'. reproduce q pop r = Inr (pop', r') \<and> length pop' = length pop \<and>
     (\<forall>i<length pop. length (pop' ! i) = length (pop ! i) \<and>
        (\<forall>k<length (pop ! i). pop' ! i ! k \<in> {CHR ''C'', CHR ''T'', CHR ''G''}))"
proof -
  have "shd (uniforms r) \<in> sset (uniforms r)" by (rule shd_sset)
  with assms have "float_le (Finite (shd (uniforms r))) q" by blast
  then have q: "q \<noteq> NaN" by auto
  from reproduce_sites [OF q, of pop r] obtain pop' n k where
    p: "reproduce q pop r = Inr (pop', advance r n k)" "length pop' = length pop"
    "\<forall>i<length pop. \<exists>n k.
        pop' ! i = map (mutated_site q (pop ! i) (advance r n k)) [0..<length (pop ! i)]"
    by blast
  have "length (pop' ! i) = length (pop ! i) \<and>
        (\<forall>k<length (pop ! i). pop' ! i ! k \<in> {CHR ''C'', CHR ''T'', CHR ''G''})"
    if "i < length pop" for i
  proof -
    from p(3) that obtain n k where
      "pop' ! i = map (mutated_site q (pop ! i) (advance r n k)) [0..<length (pop ! i)]"
      by blast
    then show ?thesis using mutated_site_replace [OF assms] by simp
  qed
  with p(1,2) show ?thesis by blast
qed




lemma reachable_same_length:
  assumes "reachable N L q pop"
  shows "same_length pop \<and> (q \<noteq> NaN \<longrightarrow> all_of_length (nat L) pop)"
  using assms
proof (induction rule: reachable.induct)
  case initial
  have "all_of_length (nat L) (initialize_original_sequence N L)"
    by (simp add: initialize_original_sequence_eq all_of_length_def)
  then show ?case unfolding same_length_def by blast
next
  case (reproduced pop r pop' r')
  from reproduced.IH have s: "same_length pop" by simp
  from reproduce_same_length [OF s, of q r] reproduced.hyps(2)
  have a: "same_length pop'" by simp
  have "all_of_length (nat L) pop'" if "q \<noteq> NaN"
  proof -
    from reproduced.IH that have "all_of_length (nat L) pop" by simp
    from reproduce_all_of_length [OF this, of q r] reproduced.hyps(2) that
    show ?thesis by simp
  qed
  with a show ?case by simp
next
  case (split1 pop p1 p2)
  from split1.hyps(2) have p1: "p1 = take (nat ((N + 1) div 2)) pop"
    by (simp add: split_populations_eq)
  from split1.IH show ?case
    unfolding p1 using same_length_take_drop all_of_length_take_drop by blast
next
  case (split2 pop p1 p2)
  from split2.hyps(2) have p2: "p2 = drop (nat ((N + 1) div 2)) pop"
    by (simp add: split_populations_eq)
  from split2.IH show ?case
    unfolding p2 using same_length_take_drop all_of_length_take_drop by blast
qed

lemma pre_split_body_reachable:
  assumes "pre_split_body N L q flag i st = Inr st'"
    and "reachable N0 L0 q (new_generation_sequence st)"
  shows "reachable N0 L0 q (new_generation_sequence st') \<and>
    population1 st' = population1 st \<and> population2 st' = population2 st"
  using assms
  by (auto simp: pre_split_body_def split: sum.splits if_splits prod.splits
      intro: reachable.reproduced)

lemma post_split_body_reachable:
  assumes "post_split_body N L q flag i st = Inr st'"
    and "reachable N0 L0 q (population2 st)"
  shows "reachable N0 L0 q (new_generation_sequence st') \<and>
    population1 st' = population1 st \<and> population2 st' = population2 st"
  using assms
  by (auto simp: post_split_body_def split: sum.splits if_splits prod.splits
      intro: reachable.reproduced)

lemma for_in_preserves:
  assumes "for_in xs body s = Inr s'" and "Q s"
    and "\<And>x t t'. Q t \<Longrightarrow> body x t = Inr t' \<Longrightarrow> Q t'"
  shows "Q s'"
  using assms
proof (induction xs arbitrary: s)
  case Nil
  then show ?case by simp
next
  case (Cons x xs)
  from Cons.prems(1) obtain t where t: "body x s = Inr t" "for_in xs body t = Inr s'"
    by (auto split: sum.splits)
  have "Q t" using Cons.prems(2,3) t(1) by blast
  then show ?case using Cons.IH [OF t(2)] Cons.prems(3) by blast
qed

lemma main_reachable:
  assumes "main N L q g G flag r = Inr st"
  shows "reachable N L q (new_generation_sequence st) \<and>
    (g < G \<longrightarrow> reachable N L q (population1 st) \<and> reachable N L q (population2 st))"
proof (cases "g < G")
  case True
  let ?Q = "\<lambda>t. reachable N L q (new_generation_sequence t)"
  from assms True obtain st1 p1 p2 where
    a: "for_in [0..<nat g] (pre_split_body N L q flag) (initial_state N L r) = Inr st1"
    and b: "split_populations (new_generation_sequence st1) N = Inr (p1, p2)"
    and c: "for_in [nat g..<nat G] (post_split_body N L q flag)
              (st1\<lparr>population1 := p1, population2 := p2\<rparr>) = Inr st"
    by (auto simp: main_def split: sum.splits prod.splits if_splits)
  have "?Q (initial_state N L r)"
    by (simp add: initial_state_def reachable.initial)
  with a have r1: "?Q st1"
    by (rule for_in_preserves) (use pre_split_body_reachable in blast)
  from b r1 have r12: "reachable N L q p1" "reachable N L q p2"
    by (blast intro: reachable.split1 reachable.split2)+
  let ?R = "\<lambda>t. reachable N L q (new_generation_sequence t) \<and> population1 t = p1 \<and>
    population2 t = p2"
  have "?R (st1\<lparr>population1 := p1, population2 := p2\<rparr>)" using r1 by simp
  with c have "?R st"
    by (rule for_in_preserves) (use post_split_body_reachable r12 in metis)
  then show ?thesis using r12 by simp
next
  case False
  let ?Q = "\<lambda>t. reachable N L q (new_generation_sequence t)"
  from assms False have
    a: "for_in [0..<nat G] (pre_split_body N L q True) (initial_state N L r) = Inr st"
    by (auto simp: main_def no_split_body_eq split: sum.splits prod.splits if_splits)
  have "?Q (initial_state N L r)"
    by (simp add: initial_state_def reachable.initial)
  with a have "?Q st"
    by (rule for_in_preserves) (use pre_split_body_reachable in blast)
  then show ?thesis using False by simp
qed

lemma round64_1: "round64 1 = Finite 1"
  using round64_of_int_exact [of 1] by simp

lemma round64_2: "round64 2 = Finite 2"
  using round64_of_int_exact [of 2] by simp

lemma round64_3: "round64 3 = Finite 3"
  using round64_of_int_exact [of 3] by simp

lemma round64_5: "round64 5 = Finite 5"
  using round64_of_int_exact [of 5] by simp

lemma round64_three_halves: "round64 (3 / 2) = Finite (3 / 2)"
  using round64_half_exact [of 3] by simp

lemma round64_four_thirds:
  "round64 (4 / 3) = Finite (6004799503160661 / 4503599627370496)"
  using round64_normal [of 0 "4 / 3"]
  by (simp add: round_half_even_def Let_def power_int_minus floor_rat_numeral)

lemma round64_two_thirds:
  "round64 (2 / 3) = Finite (6004799503160661 / 9007199254740992)"
  using round64_normal [of "- 1" "2 / 3"]
  by (simp add: round_half_even_def Let_def power_int_minus floor_rat_numeral)

lemma round64_two_thirds_float:
  "round64 (6004799503160661 / 9007199254740992) =
     Finite (6004799503160661 / 9007199254740992)"
  using round64_normal [of "- 1" "6004799503160661 / 9007199254740992"]
  by (simp add: round_half_even_def Let_def power_int_minus floor_rat_numeral)

lemma round64_one_fifth:
  "round64 (1 / 5) = Finite (3602879701896397 / 18014398509481984)"
  using round64_normal [of "- 3" "1 / 5"]
  by (simp add: round_half_even_def Let_def power_int_minus floor_rat_numeral)

lemma round64_three_fifths:
  "round64 (3 / 5) = Finite (5404319552844595 / 9007199254740992)"
  using round64_normal [of "- 1" "3 / 5"]
  by (simp add: round_half_even_def Let_def power_int_minus floor_rat_numeral)

lemma round64_three_fifths_third:
  "round64 (5404319552844595 / 27021597764222976) =
     Finite (7205759403792793 / 36028797018963968)"
  using round64_normal [of "- 3" "5404319552844595 / 27021597764222976"]
  by (simp add: round_half_even_def Let_def power_int_minus floor_rat_numeral)

text \<open>
  C1. The claim is that after the split each of the two populations is advanced by
  \<open>reproduce\<close> in every generation. The code calls \<open>reproduce\<close> on each population and
  assigns the result to \<open>new_generation_sequence\<close>, so \<open>population1\<close> and \<open>population2\<close>
  stay what the split returned. Here \<open>N = 2\<close>, \<open>L = 1\<close>, rate 1, \<open>g = 1\<close>, \<open>G = 3\<close>:
  the generation before the split mutates both sequences to C; the two generations after
  the split choose T, yet both populations are still C at the end, and only
  \<open>new_generation_sequence\<close> holds the T.
\<close>

theorem C1_populations_not_advanced_after_split:
  "main 2 1 (Finite 1) 1 3 True \<lparr>uniforms = sconst (1 / 2), picks = 0 ## 0 ## sconst 1\<rparr> =
     Inr \<lparr>generations = [1, 2, 2, 3, 3],
          avg_genetic_distances = [Finite 0, Finite 0, Finite 0, Finite 0, Finite 0],
          generation_number = 4, new_generation_sequence = [''T''],
          population1 = [''C''], population2 = [''C''],
          rand = \<lparr>uniforms = sconst (1 / 2), picks = sconst 1\<rparr>\<rparr> \<and>
   map_sum id fst
     (reproduce (Finite 1) [''C''] \<lparr>uniforms = sconst (1 / 2), picks = sconst 1\<rparr>) =
     Inr [''T'']"
  by (simp add: main_def initial_state_def initialize_original_sequence_eq
     pre_split_body_def post_split_body_def reproduce_def reproduce_body_def getitem_def
     mutate_eq mutated_site_def nucleotide_choices_def mutations_before_def advance_def
     split_populations_eq genetic_distance_def genetic_distance_half_def distances_outer_def
     distances_inner_def compare_sequences_def compare_body_def float_div_def round64_0
     round64_1 upt_rec)

text \<open>
  C2. For a population of \<open>n \<ge> 1\<close> sequences, all of length \<open>L \<ge> 1\<close>,
  \<open>genetic_distance\<close> called with the size of the population as \<open>N\<close> returns
  \<^verbatim>\<open>(sum / N) / L\<close> in float arithmetic, where \<open>sum\<close> is the sum of \<open>compare_sequences\<close>
  over the unordered pairs of distinct members, each pair once and \<open>C(n,2)\<close> of them, none
  raising. The sum is divided by \<open>N\<close> first: the quotient of the two integers is rounded to
  the nearest binary64; that float is then divided by \<open>L\<close> converted to a float, and the
  quotient is rounded again. For a population of one sequence the result is exactly 0,
  and nothing is divided by zero.
\<close>

theorem C2_genetic_distance_average:
  assumes "pop \<noteq> []" and "0 < L" and "\<forall>s\<in>set pop. length s = nat L"
  shows "(\<exists>q d. truediv (PyInt (int (pair_total pop))) (PyInt (int (length pop))) = Inr q \<and>
            truediv (PyFloat q) (PyInt L) = Inr d \<and>
            genetic_distance pop (PyInt (int (length pop))) L = Inr d \<and>
            q = round64 (of_nat (pair_total pop) / of_nat (length pop)) \<and>
            d = ieee_div q (round64 (of_int L))) \<and>
         pair_total pop =
           (\<Sum>(i, j)\<leftarrow>unordered_pairs (length pop). hamming (pop ! i) (pop ! j)) \<and>
         (\<forall>(i, j)\<in>set (unordered_pairs (length pop)).
            compare_sequences (pop ! i) (pop ! j) = Inr (hamming (pop ! i) (pop ! j))) \<and>
         set (unordered_pairs (length pop)) = {(i, j). i < j \<and> j < length pop} \<and>
         distinct (unordered_pairs (length pop)) \<and>
         length (unordered_pairs (length pop)) = length pop choose 2 \<and>
         (length pop = 1 \<longrightarrow>
            genetic_distance pop (PyInt (int (length pop))) L = Inr (Finite 0))"
proof -
  have al: "all_of_length (nat L) pop" using assms(3) by (simp add: all_of_length_def)
  then have sl: "same_length pop" unfolding same_length_def ..
  have len: "length a \<le> length b" if "a \<in> set pop" "b \<in> set pop" for a b
    using that assms(3) by simp
  have n0: "int (length pop) \<noteq> 0" and L1: "1 \<le> L"
    using assms(1,2) by simp_all
  define q where "q = round64 (of_nat (pair_total pop) / of_nat (length pop))"
  define d where "d = ieee_div q (round64 (of_int L))"
  have t1: "truediv (PyInt (int (pair_total pop))) (PyInt (int (length pop))) = Inr q"
    using n0 by (simp add: q_def)
  have t2: "truediv (PyFloat q) (PyInt L) = Inr d"
    unfolding d_def using L1 by (rule truediv_float_int)
  have gd: "genetic_distance pop (PyInt (int (length pop))) L = Inr d"
    using genetic_distance_int_value [OF sl n0 L1] by (simp add: d_def q_def)
  have c1: "\<exists>q d. truediv (PyInt (int (pair_total pop))) (PyInt (int (length pop))) = Inr q \<and>
            truediv (PyFloat q) (PyInt L) = Inr d \<and>
            genetic_distance pop (PyInt (int (length pop))) L = Inr d \<and>
            q = round64 (of_nat (pair_total pop) / of_nat (length pop)) \<and>
            d = ieee_div q (round64 (of_int L))"
    using t1 t2 gd q_def d_def by blast
  have c2: "pair_total pop =
           (\<Sum>(i, j)\<leftarrow>unordered_pairs (length pop). hamming (pop ! i) (pop ! j))"
    by (simp only: pair_total_def)
  have cmp: "compare_sequences (pop ! i) (pop ! j) = Inr (hamming (pop ! i) (pop ! j))"
    if "(i, j) \<in> set (unordered_pairs (length pop))" for i j
  proof -
    from that have "i < length pop" "j < length pop" by (auto simp: set_unordered_pairs)
    then show ?thesis using len by (simp add: compare_sequences_le)
  qed
  have c3: "\<forall>(i, j)\<in>set (unordered_pairs (length pop)).
            compare_sequences (pop ! i) (pop ! j) = Inr (hamming (pop ! i) (pop ! j))"
    using cmp by blast
  have c7: "length pop = 1 \<longrightarrow>
      genetic_distance pop (PyInt (int (length pop))) L = Inr (Finite 0)"
  proof
    assume l: "length pop = 1"
    then have "pair_total pop = 0" by (simp add: pair_total_def unordered_pairs_def)
    then have "q = Finite 0" using l by (simp add: q_def round64_0)
    then have "d = Finite 0"
      unfolding d_def using round64_not_NaN [of "of_int L"] by (simp add: ieee_div_zero)
    with gd show "genetic_distance pop (PyInt (int (length pop))) L = Inr (Finite 0)"
      by simp
  qed
  show ?thesis
    using c1 c2 c3 c7 set_unordered_pairs [of "length pop"]
      distinct_unordered_pairs [of "length pop"] length_unordered_pairs [of "length pop"]
    by blast
qed

text \<open>
  Three sequences at distances 1, 2 and 1 and \<open>L = 2\<close>: \<^verbatim>\<open>(4 / 3) / 2\<close> is the float
  \<^verbatim>\<open>0.6666666666666666\<close>, which is \<open>6004799503160661 / 2 ^ 53\<close>. Three sequences at
  distances 1, 1 and 1 and \<open>L = 5\<close>: \<^verbatim>\<open>(3 / 3) / 5\<close> is the float \<^verbatim>\<open>0.2\<close>, while dividing
  by \<open>L\<close> first, \<^verbatim>\<open>(3 / 5) / 3\<close>, would give \<^verbatim>\<open>0.19999999999999998\<close>.
\<close>

theorem C2_genetic_distance_average_witness:
  "[''AC'', ''AA'', ''CA''] \<noteq> [] \<and> (0::int) < 2 \<and>
   list_all (\<lambda>s. length s = nat 2) [''AC'', ''AA'', ''CA''] \<and>
   genetic_distance [''AC'', ''AA'', ''CA''] (PyInt 3) 2 =
     Inr (Finite (6004799503160661 / 9007199254740992)) \<and>
   genetic_distance [''AC''] (PyInt 1) 2 = Inr (Finite 0) \<and>
   list_all (\<lambda>s. length s = nat 5) [''AAAAA'', ''CAAAA'', ''TAAAA''] \<and>
   genetic_distance [''AAAAA'', ''CAAAA'', ''TAAAA''] (PyInt 3) 5 =
     Inr (Finite (3602879701896397 / 18014398509481984)) \<and>
   ieee_div (round64 (3 / 5)) (round64 3) = Finite (7205759403792793 / 36028797018963968)"
proof -
  have p3: "unordered_pairs (Suc (Suc (Suc 0))) = [(0, 1), (0, 2), (1, 2)]"
    by (simp add: unordered_pairs_def upt_conv_Cons)
  have p1: "unordered_pairs (Suc 0) = []"
    by (simp add: unordered_pairs_def)
  have a: "[''AC'', ''AA'', ''CA''] \<noteq> []" "(0::int) < 2"
    "\<forall>s\<in>set [''AC'', ''AA'', ''CA'']. length s = nat 2" by simp_all
  have b: "[''AC''] \<noteq> []" "\<forall>s\<in>set [''AC'']. length s = nat 2" by simp_all
  have c: "[''AAAAA'', ''CAAAA'', ''TAAAA''] \<noteq> []" "(0::int) < 5"
    "\<forall>s\<in>set [''AAAAA'', ''CAAAA'', ''TAAAA'']. length s = nat 5" by simp_all
  have t4: "pair_total [''AC'', ''AA'', ''CA''] = 4"
    by (simp add: pair_total_def p3 hamming_def)
  have t3: "pair_total [''AAAAA'', ''CAAAA'', ''TAAAA''] = 3"
    by (simp add: pair_total_def p3 hamming_def)
  have "genetic_distance [''AC'', ''AA'', ''CA''] (PyInt 3) 2 =
     Inr (Finite (6004799503160661 / 9007199254740992))"
    using C2_genetic_distance_average [OF a]
    by (simp add: t4 round64_four_thirds round64_2 round64_two_thirds_float)
  moreover have "genetic_distance [''AC''] (PyInt 1) 2 = Inr (Finite 0)"
    using C2_genetic_distance_average [OF b(1) a(2) b(2)]
    by (simp add: pair_total_def p1 round64_0 round64_2)
  moreover have "genetic_distance [''AAAAA'', ''CAAAA'', ''TAAAA''] (PyInt 3) 5 =
     Inr (Finite (3602879701896397 / 18014398509481984))"
    using C2_genetic_distance_average [OF c]
    by (simp add: t3 round64_1 round64_5 round64_one_fifth)
  moreover have "ieee_div (round64 (3 / 5)) (round64 3) =
      Finite (7205759403792793 / 36028797018963968)"
    by (simp add: round64_three_fifths round64_3 round64_three_fifths_third)
  ultimately show ?thesis by simp
qed

text \<open>
  C3. For a mutation rate that is a number (so for every rate in \<open>[0,1]\<close>) \<open>mutate\<close>
  decides each position on its own, in the order of the input: position \<open>i\<close> reads the
  \<open>i\<close>-th draw \<open>u\<close> of the generator. Where \<open>u <= mutation_rate\<close>, equality included, the
  output symbol is the one \<open>random.choice\<close> selects from the list C, T, G: with index 0
  it is C, with index 1 it is T, with index 2 it is G (the number of the selection is the
  number of positions mutated before). Where \<open>u > mutation_rate\<close> the symbol of the input
  is copied. The output has the length of the input. The selection is uniform on
  \<open>{C, T, G}\<close>: the three positions of the list hold the three symbols, one each, so that
  an index uniform on \<open>{0, 1, 2}\<close> selects each of C, T and G with probability \<open>1/3\<close> and
  no other symbol.
\<close>

theorem C3_mutate_per_site:
  assumes "mutation_rate \<noteq> NaN"
  shows "mutate mutation_rate s r =
     Inr (map (mutated_site mutation_rate s r) [0..<length s],
          advance r (length s) (mutations_before mutation_rate r (length s))) \<and>
   (\<forall>i. float_le (Finite (uniforms r !! i)) mutation_rate \<longrightarrow>
      Inr (mutated_site mutation_rate s r i) =
        fst (random_choice [CHR ''C'', CHR ''T'', CHR ''G'']
               (advance r (Suc i) (mutations_before mutation_rate r i))) \<and>
      mutated_site mutation_rate s r i =
        [CHR ''C'', CHR ''T'', CHR ''G''] !
          (picks r !! mutations_before mutation_rate r i mod 3)) \<and>
   (\<forall>i. mutation_rate = Finite (uniforms r !! i) \<longrightarrow>
      mutated_site mutation_rate s r i =
        [CHR ''C'', CHR ''T'', CHR ''G''] !
          (picks r !! mutations_before mutation_rate r i mod 3)) \<and>
   (\<forall>i. float_gt (Finite (uniforms r !! i)) mutation_rate \<longrightarrow>
      mutated_site mutation_rate s r i = s ! i) \<and>
   nucleotide_choices = [CHR ''C'', CHR ''T'', CHR ''G''] \<and>
   (\<forall>k p. k < 3 \<longrightarrow>
      fst (random_choice nucleotide_choices (r\<lparr>picks := k ## p\<rparr>)) =
        Inr ([CHR ''C'', CHR ''T'', CHR ''G''] ! k)) \<and>
   bij_betw ((!) nucleotide_choices) {0, 1, 2} {CHR ''C'', CHR ''T'', CHR ''G''} \<and>
   (\<forall>c. choice_probability nucleotide_choices c =
      (if c \<in> {CHR ''C'', CHR ''T'', CHR ''G''} then 1 / 3 else 0))"
proof -
  have c1: "mutate mutation_rate s r =
     Inr (map (mutated_site mutation_rate s r) [0..<length s],
          advance r (length s) (mutations_before mutation_rate r (length s)))"
    using assms by (rule mutate_eq)
  have c2: "Inr (mutated_site mutation_rate s r i) =
        fst (random_choice [CHR ''C'', CHR ''T'', CHR ''G'']
               (advance r (Suc i) (mutations_before mutation_rate r i))) \<and>
      mutated_site mutation_rate s r i =
        [CHR ''C'', CHR ''T'', CHR ''G''] !
          (picks r !! mutations_before mutation_rate r i mod 3)"
    if "float_le (Finite (uniforms r !! i)) mutation_rate" for i
    using that
    by (simp add: mutated_site_def random_choice_def advance_def nucleotide_choices_def)
  have c3: "mutated_site mutation_rate s r i =
        [CHR ''C'', CHR ''T'', CHR ''G''] !
          (picks r !! mutations_before mutation_rate r i mod 3)"
    if "mutation_rate = Finite (uniforms r !! i)" for i
  proof -
    from that have "float_le (Finite (uniforms r !! i)) mutation_rate" by simp
    then show ?thesis using c2 by blast
  qed
  have c4: "mutated_site mutation_rate s r i = s ! i"
    if "float_gt (Finite (uniforms r !! i)) mutation_rate" for i
    using that float_gt_iff [OF assms, of "uniforms r !! i"]
    by (simp add: mutated_site_def)
  have c5: "nucleotide_choices = [CHR ''C'', CHR ''T'', CHR ''G'']"
    by (rule nucleotide_choices_def)
  have c6: "fst (random_choice nucleotide_choices (r\<lparr>picks := k ## p\<rparr>)) =
        Inr ([CHR ''C'', CHR ''T'', CHR ''G''] ! k)" if "k < 3" for k p
    using that by (simp add: random_choice_def nucleotide_choices_def)
  have c7: "bij_betw ((!) nucleotide_choices) {0, 1, 2} {CHR ''C'', CHR ''T'', CHR ''G''}"
    by (simp add: bij_betw_def nucleotide_choices_def)
  have c8: "choice_probability nucleotide_choices c =
      (if c \<in> {CHR ''C'', CHR ''T'', CHR ''G''} then 1 / 3 else 0)" for c
    by (auto simp: choice_probability_def nucleotide_choices_def upt_conv_Cons)
  show ?thesis
    using c1 c2 c3 c4 c5 c6 c7 c8 by blast
qed

text \<open>
  Rate \<open>1/2\<close> and the draws \<open>1/2\<close>, \<open>3/4\<close>, \<open>1/4\<close>: the first position is mutated (the
  draw equals the rate) to the symbol of index 2, G; the second is copied; the third is
  mutated to the symbol of index 1, T.
\<close>

theorem C3_mutate_per_site_witness:
  "Finite (1 / 2) \<noteq> NaN \<and>
   mutate (Finite (1 / 2)) ''AAA''
     \<lparr>uniforms = 1 / 2 ## 3 / 4 ## 1 / 4 ## sconst 0, picks = 2 ## 1 ## sconst 0\<rparr> =
     Inr (''GAT'', \<lparr>uniforms = sconst 0, picks = sconst 0\<rparr>)"
  using C3_mutate_per_site
    [of "Finite (1 / 2)" "''AAA''"
        "\<lparr>uniforms = 1 / 2 ## 3 / 4 ## 1 / 4 ## sconst 0, picks = 2 ## 1 ## sconst 0\<rparr>"]
  by (simp add: mutated_site_def advance_def nucleotide_choices_def mutations_before_def)

text \<open>
  C4. For a population of size \<open>N\<close>, \<open>split_populations\<close> is positional: the first
  population is the first \<open>ceil(N/2)\<close> individuals and the second the remaining
  \<open>floor(N/2)\<close>, in their order, so that the first followed by the second is the
  population itself. For \<open>N = 10\<close> the sizes are 5 and 5, for \<open>N = 7\<close> they are 4 and 3.
\<close>

theorem C4_split_populations_positional:
  assumes "int (length pop) = N"
  shows "split_populations pop N =
           Inr (take (nat \<lceil>(of_int N :: rat) / 2\<rceil>) pop, drop (nat \<lceil>(of_int N :: rat) / 2\<rceil>) pop) \<and>
         int (length (take (nat \<lceil>(of_int N :: rat) / 2\<rceil>) pop)) = \<lceil>(of_int N :: rat) / 2\<rceil> \<and>
         int (length (drop (nat \<lceil>(of_int N :: rat) / 2\<rceil>) pop)) = \<lfloor>(of_int N :: rat) / 2\<rfloor> \<and>
         take (nat \<lceil>(of_int N :: rat) / 2\<rceil>) pop @ drop (nat \<lceil>(of_int N :: rat) / 2\<rceil>) pop = pop"
proof -
  have "0 \<le> N" using assms by linarith
  then have "int (min (length pop) (nat ((N + 1) div 2))) = (N + 1) div 2"
    "int (length pop - nat ((N + 1) div 2)) = N div 2"
    using assms by linarith+
  then show ?thesis
    by (simp add: split_populations_eq ceiling_half floor_half)
qed

theorem C4_split_populations_positional_witness:
  "int (length [1, 2, 3, 4, 5, 6, 7 :: nat]) = 7 \<and>
   split_populations [1, 2, 3, 4, 5, 6, 7 :: nat] 7 = Inr ([1, 2, 3, 4], [5, 6, 7]) \<and>
   int (length [1, 2, 3, 4, 5, 6, 7, 8, 9, 10 :: nat]) = 10 \<and>
   split_populations [1, 2, 3, 4, 5, 6, 7, 8, 9, 10 :: nat] 10 =
     Inr ([1, 2, 3, 4, 5], [6, 7, 8, 9, 10])"
proof -
  have c: "\<lceil>(7 :: rat) / 2\<rceil> = 4" "\<lceil>(10 :: rat) / 2\<rceil> = 5"
    using ceiling_half [of 7] ceiling_half [of 10] by simp_all
  show ?thesis
    using C4_split_populations_positional [of "[1, 2, 3, 4, 5, 6, 7 :: nat]" 7]
      C4_split_populations_positional [of "[1, 2, 3, 4, 5, 6, 7, 8, 9, 10 :: nat]" 10]
    by (simp add: c)
qed

text \<open>
  C5, as the code has it. With mutation rate 1 and draws in \<open>[0,1)\<close>, \<open>reproduce\<close> keeps
  the number of sequences and their lengths, and every output site is one of C, T, G; the
  output differs from its parent at every position where the parent holds a symbol other
  than C, T, G (so at every position of the all-A first generation). Where the parent
  already holds C, T or G the choice may return the same symbol: \<open>mutate\<close> chooses among
  the three without looking at the parent.
\<close>

theorem C5_reproduce_rate_one:
  assumes "\<forall>u\<in>sset (uniforms r). 0 \<le> u \<and> u < 1"
  shows "\<exists>pop' r'. reproduce (Finite 1) pop r = Inr (pop', r') \<and> length pop' = length pop \<and>
     (\<forall>i<length pop. length (pop' ! i) = length (pop ! i) \<and>
        (\<forall>k<length (pop ! i).
           pop' ! i ! k \<in> {CHR ''C'', CHR ''T'', CHR ''G''} \<and>
           (pop ! i ! k \<notin> {CHR ''C'', CHR ''T'', CHR ''G''} \<longrightarrow> pop' ! i ! k \<noteq> pop ! i ! k)))"
proof -
  have "\<forall>u\<in>sset (uniforms r). float_le (Finite u) (Finite 1)" using assms by auto
  from reproduce_replace [OF this, of pop] obtain pop' r' where
    p: "reproduce (Finite 1) pop r = Inr (pop', r')" "length pop' = length pop"
    "\<forall>i<length pop. length (pop' ! i) = length (pop ! i) \<and>
        (\<forall>k<length (pop ! i). pop' ! i ! k \<in> {CHR ''C'', CHR ''T'', CHR ''G''})"
    by blast
  from p(3) have "\<forall>i<length pop. length (pop' ! i) = length (pop ! i) \<and>
        (\<forall>k<length (pop ! i).
           pop' ! i ! k \<in> {CHR ''C'', CHR ''T'', CHR ''G''} \<and>
           (pop ! i ! k \<notin> {CHR ''C'', CHR ''T'', CHR ''G''} \<longrightarrow> pop' ! i ! k \<noteq> pop ! i ! k))"
    by metis
  with p(1,2) show ?thesis by blast
qed

theorem C5_reproduce_rate_one_witness:
  "list_all (\<lambda>u. 0 \<le> u \<and> u < 1) [1 / 2 :: rat] \<and>
   map_sum id fst
     (reproduce (Finite 1) [''AC''] \<lparr>uniforms = sconst (1 / 2), picks = 0 ## sconst 1\<rparr>) =
     Inr [''CT'']"
  using C5_reproduce_rate_one
    [of "\<lparr>uniforms = sconst (1 / 2), picks = 0 ## sconst 1\<rparr>" "[''AC'']"]
  by (simp add: reproduce_def reproduce_body_def getitem_def mutate_eq mutated_site_def
      nucleotide_choices_def mutations_before_def)

text \<open>
  The claim as the specification states it fails: the parent \<open>C\<close> mutated at rate 1 with
  the choice \<open>C\<close> gives \<open>C\<close> again, equal to its parent at position 0.
\<close>

theorem C5_reproduce_rate_one_counterexample:
  "map_sum id fst
     (reproduce (Finite 1) [''C''] \<lparr>uniforms = sconst (1 / 2), picks = sconst 0\<rparr>) =
     Inr [''C'']"
  by (simp add: reproduce_def reproduce_body_def getitem_def mutate_eq mutated_site_def
      nucleotide_choices_def mutations_before_def)

text \<open>
  C6, as the code has it. With mutation rate 0 and every draw in the open interval
  \<open>(0,1)\<close>, \<open>reproduce\<close> returns the population it was given. A draw equal to 0 satisfies
  \<open>likelihood <= mutation_rate\<close> and mutates its position.
\<close>

theorem C6_reproduce_rate_zero:
  assumes "\<forall>u\<in>sset (uniforms r). 0 < u \<and> u < 1"
  shows "\<exists>r'. reproduce (Finite 0) pop r = Inr (pop, r')"
proof -
  have "\<forall>u\<in>sset (uniforms r). \<not> float_le (Finite u) (Finite 0)" using assms by auto
  then show ?thesis by (intro reproduce_keep) simp_all
qed

theorem C6_reproduce_rate_zero_witness:
  "list_all (\<lambda>u. 0 < u \<and> u < 1) [1 / 2 :: rat] \<and>
   map_sum id fst
     (reproduce (Finite 0) [''AC'', ''GT''] \<lparr>uniforms = sconst (1 / 2), picks = sconst 0\<rparr>) =
     Inr [''AC'', ''GT'']"
proof -
  have "\<forall>u\<in>sset (uniforms \<lparr>uniforms = sconst (1 / 2 :: rat), picks = sconst 0\<rparr>). 0 < u \<and> u < 1"
    by simp
  from C6_reproduce_rate_zero [OF this, of "[''AC'', ''GT'']"] show ?thesis by auto
qed

text \<open>
  The claim as the specification states it fails on a draw in \<open>[0,1)\<close> that is 0: the
  comparison \<open>0 <= 0\<close> holds, and the site A is replaced by the chosen symbol C.
\<close>

theorem C6_reproduce_rate_zero_counterexample:
  "list_all (\<lambda>u. 0 \<le> u \<and> u < 1) [0 :: rat] \<and>
   map_sum id fst (reproduce (Finite 0) [''A''] \<lparr>uniforms = sconst 0, picks = sconst 0\<rparr>) =
     Inr [''C'']"
  by (simp add: reproduce_def reproduce_body_def getitem_def mutate_eq mutated_site_def
      nucleotide_choices_def mutations_before_def)






text \<open>
  C9. In a run with a split (\<open>g < G\<close>) the records after the first \<open>g\<close> are, for each
  later generation, the distance of population 1 and the distance of population 2. Each
  is \<^verbatim>\<open>(sum / (N / 2)) / L\<close> in float arithmetic: \<open>sum\<close> is the sum of the pairwise
  distances of that population, the divisor \<open>half\<close> is the float \<^verbatim>\<open>N / 2\<close> computed from
  the size \<open>N\<close> of the population before the split, the sum converted to a float is
  divided by \<open>half\<close>, and the quotient by \<open>L\<close>. For \<open>N\<close> below \<open>2 ^ 53\<close> the float
  \<open>half\<close> is the exact half of \<open>N\<close>. The populations have \<open>ceil(N/2)\<close> and \<open>floor(N/2)\<close>
  members; when \<open>N\<close> is odd (and below \<open>2 ^ 53\<close>) the divisor is a fraction and is the
  size of neither population.
\<close>

theorem C9_post_split_divisor:
  assumes "0 < N" "0 < L" "0 < g" "g < G"
  shows "\<exists>st half s1 d1 s2 d2. main N L q g G flag r = Inr st \<and>
     truediv (PyInt N) (PyInt 2) = Inr half \<and>
     half = round64 (of_int N / 2) \<and>
     (N < 2 ^ 53 \<longrightarrow> half = Finite (of_int N / 2)) \<and>
     truediv (PyInt (int (pair_total (population1 st)))) (PyFloat half) = Inr s1 \<and>
     truediv (PyFloat s1) (PyInt L) = Inr d1 \<and>
     genetic_distance (population1 st) (PyFloat half) L = Inr d1 \<and>
     d1 = ieee_div (ieee_div (round64 (of_nat (pair_total (population1 st)))) half)
            (round64 (of_int L)) \<and>
     truediv (PyInt (int (pair_total (population2 st)))) (PyFloat half) = Inr s2 \<and>
     truediv (PyFloat s2) (PyInt L) = Inr d2 \<and>
     genetic_distance (population2 st) (PyFloat half) L = Inr d2 \<and>
     d2 = ieee_div (ieee_div (round64 (of_nat (pair_total (population2 st)))) half)
            (round64 (of_int L)) \<and>
     drop (nat g) (avg_genetic_distances st) = concat (replicate (nat (G - g)) [d1, d2]) \<and>
     int (length (population1 st)) = \<lceil>(of_int N :: rat) / 2\<rceil> \<and>
     int (length (population2 st)) = \<lfloor>(of_int N :: rat) / 2\<rfloor> \<and>
     (odd N \<longrightarrow> N < 2 ^ 53 \<longrightarrow>
        half \<noteq> Finite (of_nat (length (population1 st))) \<and>
        half \<noteq> Finite (of_nat (length (population2 st))))"
proof -
  have g0: "0 \<le> g" and N1: "1 \<le> N" and L1: "1 \<le> L" using assms by simp_all
  define half where "half = round64 (of_int N / 2)"
  have h0: "half \<noteq> Finite 0" unfolding half_def using N1 by (rule round64_half_nonzero)
  from main_split [OF assms(1,2) g0 assms(4), of q flag r] obtain st1 :: sim_state and st where
    m: "main N L q g G flag r = Inr st"
    and n: "length (new_generation_sequence st1) = nat N"
    and p1: "population1 st = take (nat ((N + 1) div 2)) (new_generation_sequence st1)"
    and p2: "population2 st = drop (nat ((N + 1) div 2)) (new_generation_sequence st1)"
    and l: "length (avg_genetic_distances st1) = nat g"
    and a: "avg_genetic_distances st = avg_genetic_distances st1 @
       concat (replicate (nat (G - g))
         [recorded_distance (population1 st) (PyFloat (round64 (of_int N / 2))) L,
          recorded_distance (population2 st) (PyFloat (round64 (of_int N / 2))) L])"
    by blast
  define s where "s = (\<lambda>pop. ieee_div (round64 (of_nat (pair_total pop))) half)"
  define d where "d = (\<lambda>pop. ieee_div (s pop) (round64 (of_int L)))"
  have rd: "recorded_distance pop (PyFloat (round64 (of_int N / 2))) L = d pop" for pop
    using recorded_distance_half_value [OF N1 L1, of pop] by (simp add: d_def s_def half_def)
  have c0: "truediv (PyInt N) (PyInt 2) = Inr half" by (simp add: half_def)
  have ex: "N < 2 ^ 53 \<longrightarrow> half = Finite (of_int N / 2)"
    unfolding half_def using round64_half_exact [OF assms(1)] by blast
  have ts: "truediv (PyInt (int (pair_total pop))) (PyFloat half) = Inr (s pop)" for pop
    using truediv_int_float [OF h0, of "int (pair_total pop)"] by (simp add: s_def)
  have td: "truediv (PyFloat (s pop)) (PyInt L) = Inr (d pop)" for pop
    unfolding d_def using L1 by (rule truediv_float_int)
  from main_reachable [OF m] assms(4) have
    "reachable N L q (population1 st)" "reachable N L q (population2 st)" by simp_all
  then have sl: "same_length (population1 st)" "same_length (population2 st)"
    using reachable_same_length by blast+
  have gd: "genetic_distance pop (PyFloat half) L = Inr (d pop)" if "same_length pop" for pop
    using genetic_distance_float [OF that h0 L1] rd [of pop] by (simp add: half_def)
  have dr: "drop (nat g) (avg_genetic_distances st) =
       concat (replicate (nat (G - g)) [d (population1 st), d (population2 st)])"
    using a l by (simp add: rd)
  have c1: "int (length (population1 st)) = \<lceil>(of_int N :: rat) / 2\<rceil>"
    unfolding ceiling_half p1 using n assms(1) by (simp add: min_def; linarith)
  have c2: "int (length (population2 st)) = \<lfloor>(of_int N :: rat) / 2\<rfloor>"
    unfolding floor_half p2 using n assms(1) by (simp; linarith)
  have odd: "half \<noteq> Finite (of_nat k)" if "odd N" "N < 2 ^ 53" for k
  proof
    assume "half = Finite (of_nat k)"
    with ex that(2) have "(of_int N / 2 :: rat) = of_nat k" by simp
    then have "(of_int N :: rat) = of_int (2 * int k)" by simp
    then have "N = 2 * int k" by (simp only: of_int_eq_iff)
    with that(1) show False by simp
  qed
  have dd: "d pop = ieee_div (ieee_div (round64 (of_nat (pair_total pop))) half)
            (round64 (of_int L))" for pop
    by (simp add: d_def s_def)
  show ?thesis
    apply (rule exI [of _ st])
    apply (rule exI [of _ half])
    apply (rule exI [of _ "s (population1 st)"])
    apply (rule exI [of _ "d (population1 st)"])
    apply (rule exI [of _ "s (population2 st)"])
    apply (rule exI [of _ "d (population2 st)"])
    apply (intro conjI)
    apply (rule m)
    apply (rule c0)
    apply (rule half_def)
    apply (rule ex)
    apply (rule ts)
    apply (rule td)
    apply (rule gd [OF sl(1)])
    apply (rule dd)
    apply (rule ts)
    apply (rule td)
    apply (rule gd [OF sl(2)])
    apply (rule dd)
    apply (rule dr)
    apply (rule c1)
    apply (rule c2)
    using odd apply blast
    done
qed

text \<open>
  \<open>N = 3\<close>, \<open>L = 1\<close>, rate 1, \<open>g = 1\<close>, \<open>G = 2\<close>: the generation before the split
  mutates the three sequences to C, T and G; population 1 is C, T with one difference,
  and its record is \<^verbatim>\<open>(1 / 1.5) / 1\<close>, the float \<^verbatim>\<open>0.6666666666666666\<close>, not
  \<^verbatim>\<open>0.5\<close>.
\<close>

theorem C9_post_split_divisor_witness:
  "(0::int) < 3 \<and> (0::int) < 1 \<and> (1::int) < 2 \<and> odd (3::int) \<and> (3::int) < 2 ^ 53 \<and>
   map_sum id avg_genetic_distances
     (main 3 1 (Finite 1) 1 2 True
        \<lparr>uniforms = sconst (1 / 2), picks = 0 ## 1 ## 2 ## sconst 0\<rparr>) =
     Inr [Finite 0, Finite (6004799503160661 / 9007199254740992), Finite 0] \<and>
   map_sum id population1
     (main 3 1 (Finite 1) 1 2 True
        \<lparr>uniforms = sconst (1 / 2), picks = 0 ## 1 ## 2 ## sconst 0\<rparr>) =
     Inr [''C'', ''T'']"
proof -
  have run: "main 3 1 (Finite 1) 1 2 True
        \<lparr>uniforms = sconst (1 / 2), picks = 0 ## 1 ## 2 ## sconst 0\<rparr> =
     Inr \<lparr>generations = [1, 2, 2],
          avg_genetic_distances =
            [Finite 0, Finite (6004799503160661 / 9007199254740992), Finite 0],
          generation_number = 3, new_generation_sequence = [''C''],
          population1 = [''C'', ''T''], population2 = [''G''],
          rand = \<lparr>uniforms = sconst (1 / 2), picks = sconst 0\<rparr>\<rparr>"
    by (simp add: main_def initial_state_def initialize_original_sequence_eq
       pre_split_body_def post_split_body_def reproduce_def reproduce_body_def getitem_def
       mutate_eq mutated_site_def nucleotide_choices_def mutations_before_def advance_def
       split_populations_eq genetic_distance_def genetic_distance_half_def
       distances_outer_def distances_inner_def compare_sequences_def compare_body_def
       float_div_def round64_0 round64_1 round64_three_halves round64_two_thirds
       round64_two_thirds_float upt_rec)
  show ?thesis
    using C9_post_split_divisor
      [of 3 1 1 2 "Finite 1" True
         "\<lparr>uniforms = sconst (1 / 2), picks = 0 ## 1 ## 2 ## sconst 0\<rparr>"]
      run
    by simp
qed

text \<open>
  C10. For sequences \<open>a\<close> and \<open>b\<close> with \<open>len(a) \<le> len(b)\<close>, \<open>compare_sequences(a, b)\<close>
  returns without error the number of positions \<open>i < len(a)\<close> at which \<open>a[i]\<close> differs from
  \<open>b[i]\<close>; the positions of \<open>b\<close> beyond \<open>len(a)\<close> are ignored, so the function is not
  symmetric on unequal lengths; for \<open>len(a) > len(b)\<close> the read of \<open>b\<close> is out of range and
  the call raises \<open>IndexError\<close>.
\<close>

theorem C10_compare_sequences_lengths:
  "(length a \<le> length b \<longrightarrow>
      compare_sequences a b = Inr (hamming a b) \<and>
      hamming a b = card {i. i < length a \<and> a ! i \<noteq> b ! i}) \<and>
   (length b < length a \<longrightarrow> compare_sequences a b = Inl IndexError) \<and>
   compare_sequences ''A'' ''AC'' = Inr 0 \<and>
   compare_sequences ''AC'' ''A'' = Inl IndexError"
proof -
  have "compare_sequences ''A'' ''AC'' = Inr 0"
    by (simp add: compare_sequences_le hamming_def)
  moreover have "compare_sequences ''AC'' ''A'' = Inl IndexError"
    by (simp add: compare_sequences_gt)
  ultimately show ?thesis
    using compare_sequences_le [of a b] compare_sequences_gt [of b a] hamming_card [of a b]
    by simp
qed

theorem C10_compare_sequences_lengths_witness:
  "length ''AC'' \<le> length ''AAT'' \<and> compare_sequences ''AC'' ''AAT'' = Inr 1 \<and>
   length ''AC'' < length ''AAT'' \<and> compare_sequences ''AAT'' ''AC'' = Inl IndexError"
  using C10_compare_sequences_lengths [of "''AC''" "''AAT''"]
    C10_compare_sequences_lengths [of "''AAT''" "''AC''"]
  by (simp add: hamming_def)

end
